theory Spec2Isabelle
  imports Main
begin

section \<open>Errors of the upload pipeline\<close>

text \<open>
  Every \<^verbatim>\<open>throw\<close> of the sources and every exception of a library call they make is a
  value of this type. A function that can raise returns \<open>error + 'a\<close>, with \<open>Inl\<close> the
  exception.
\<close>

datatype error =
    ItemTooBig              \<comment> \<open>\<^verbatim>\<open>Item too big for arBundles size limit\<close>, thrown by getBatchRange\<close>
  | StatFailed string       \<comment> \<open>\<^verbatim>\<open>fs.statSync\<close> raised for the image of this item\<close>
  | ReadFailed string       \<comment> \<open>\<^verbatim>\<open>fs.readFileSync\<close> or \<^verbatim>\<open>JSON.parse\<close> raised for this file\<close>
  | BundleUploadFailed      \<comment> \<open>uploadBatchBundle raised\<close>
  | UploadFailed string     \<comment> \<open>a single-item upload raised\<close>
  | CreateConfigFailed      \<comment> \<open>createConfig raised\<close>
  | WalletFailed            \<comment> \<open>\<^verbatim>\<open>loadWalletKey\<close> or \<^verbatim>\<open>loadCandyProgram\<close> raised\<close>
  | InvalidArgType          \<comment> \<open>\<^verbatim>\<open>path.dirname(undefined)\<close>, for an empty file list\<close>

section \<open>Size-bounded batch planner (helpers/upload/arweave-bundle.ts)\<close>

definition BATCH_SIZE_LIMIT :: nat where
  "BATCH_SIZE_LIMIT = 50 * 1000 * 1000"

text \<open>
  \<^verbatim>\<open>getBatchRange(dirname, items)\<close>. The argument \<open>stat item\<close> is the \<^verbatim>\<open>size\<close> that
  \<^verbatim>\<open>fs.statSync(path.join(dirname, `${item}.png`))\<close> reports, and \<open>None\<close> when the call
  raises. The loop variables \<^verbatim>\<open>total\<close> and \<^verbatim>\<open>range\<close> are the two accumulators; the
  \<^verbatim>\<open>break\<close> returns \<^verbatim>\<open>range\<close> as it stands.
\<close>

fun getBatchRange_loop :: "(string \<Rightarrow> nat option) \<Rightarrow> string list \<Rightarrow> nat \<Rightarrow> nat \<Rightarrow> error + nat" where
  "getBatchRange_loop stat [] tot rng = Inr rng"
| "getBatchRange_loop stat (item # pending) tot rng =
     (case stat item of
        None \<Rightarrow> Inl (StatFailed item)
      | Some sz \<Rightarrow>
          (let tot' = tot + sz in
           if tot' \<ge> BATCH_SIZE_LIMIT
           then (if rng = 0 then Inl ItemTooBig else Inr rng)
           else getBatchRange_loop stat pending tot' (rng + 1)))"

definition getBatchRange :: "(string \<Rightarrow> nat option) \<Rightarrow> string list \<Rightarrow> error + nat" where
  "getBatchRange stat pending = getBatchRange_loop stat pending 0 0"

text \<open>
  The planning loop of \<^verbatim>\<open>arweaveBundleUpload\<close>:
  \<^verbatim>\<open>while (items.length) { range = getBatchRange(dirname, items); batches.push(items.splice(0, range)); }\<close>
  \<^verbatim>\<open>items.splice(0, range)\<close> removes the first \<^verbatim>\<open>range\<close> pending and returns them.
\<close>

function plan_batches :: "(string \<Rightarrow> nat option) \<Rightarrow> string list \<Rightarrow> string list list \<Rightarrow> error + string list list" where
  "plan_batches stat pending batches =
     (if pending = [] then Inr batches
      else (case getBatchRange stat pending of
              Inl e \<Rightarrow> Inl e
            | Inr rng \<Rightarrow> plan_batches stat (drop rng pending) (batches @ [take rng pending])))"
  by pat_completeness auto

lemma getBatchRange_loop_ge:
  "getBatchRange_loop stat pending tot rng = Inr r \<Longrightarrow> rng \<le> r"
proof (induction pending arbitrary: tot rng)
  case Nil
  then show ?case by simp
next
  case (Cons item pending)
  then show ?case
    by (fastforce simp: Let_def split: option.splits if_splits dest: Suc_leD)
qed

lemma getBatchRange_loop_pos:
  "getBatchRange_loop stat pending tot 0 = Inr r \<Longrightarrow> pending \<noteq> [] \<Longrightarrow> 0 < r"
  by (cases pending) (auto simp: Let_def split: option.splits if_splits dest: getBatchRange_loop_ge)

termination plan_batches
  by (relation "measure (\<lambda>(stat, pending, batches). length pending)")
     (auto simp: getBatchRange_def dest: getBatchRange_loop_pos)

text \<open>The cumulative raw image byte size of a run of pending.\<close>

definition cumulated_size :: "(string \<Rightarrow> nat option) \<Rightarrow> string list \<Rightarrow> nat" where
  "cumulated_size stat xs = sum_list (map (\<lambda>x. case stat x of None \<Rightarrow> 0 | Some s \<Rightarrow> s) xs)"

text \<open>
  A list of batches is greedy when every batch that is followed by a further item stops
  right before that item: with the item added, the cumulative size meets or exceeds the
  limit.
\<close>

fun greedy :: "(string \<Rightarrow> nat option) \<Rightarrow> string list list \<Rightarrow> bool" where
  "greedy stat [] = True"
| "greedy stat (b # bs) =
     ((case concat bs of [] \<Rightarrow> True | x # _ \<Rightarrow> BATCH_SIZE_LIMIT \<le> cumulated_size stat (b @ [x]))
      \<and> greedy stat bs)"

definition stat3 :: "string \<Rightarrow> nat option" where
  "stat3 x = (if x = ''2'' then Some 10000000
              else if x = ''0'' \<or> x = ''1'' then Some 30000000 else None)"

section \<open>JavaScript values used by the pipeline\<close>

text \<open>
  A string-valued field that may be absent is a \<open>string option\<close>. JavaScript treats
  \<^verbatim>\<open>undefined\<close> and the empty string as false in a condition.
\<close>

definition truthy :: "string option \<Rightarrow> bool" where
  "truthy v = (case v of None \<Rightarrow> False | Some s \<Rightarrow> s \<noteq> [])"

text \<open>
  A plain object is the list of its own properties in the order \<^verbatim>\<open>Object.keys\<close>
  enumerates them. Reading a property is \<open>obj_get\<close>. Assigning to an existing property
  keeps its position. A new property is placed as ECMAScript orders own keys: the keys
  that are array indices (canonical decimal numerals below \<open>2^32 - 1\<close>) come first, in
  ascending numeric order, then all other keys in order of creation. The properties
  inherited from \<^verbatim>\<open>Object.prototype\<close> are not part of the list.
\<close>

type_synonym 'v js_object = "(string \<times> 'v) list"

definition obj_keys :: "'v js_object \<Rightarrow> string list" where
  "obj_keys obj = map fst obj"

definition obj_get :: "'v js_object \<Rightarrow> string \<Rightarrow> 'v option" where
  "obj_get obj k = map_of obj k"

definition digit_value :: "char \<Rightarrow> nat" where
  "digit_value c = of_char c - 48"

definition is_digit :: "char \<Rightarrow> bool" where
  "is_digit c = (48 \<le> (of_char c :: nat) \<and> (of_char c :: nat) \<le> 57)"

definition decimal_value :: "string \<Rightarrow> nat" where
  "decimal_value s = foldl (\<lambda>n c. 10 * n + digit_value c) 0 s"

definition array_index :: "string \<Rightarrow> nat option" where
  "array_index k =
     (if k \<noteq> [] \<and> list_all is_digit k \<and> (k = ''0'' \<or> hd k \<noteq> CHR ''0'')
         \<and> decimal_value k < 2 ^ 32 - 1
      then Some (decimal_value k) else None)"

fun insert_property :: "string \<Rightarrow> 'v \<Rightarrow> 'v js_object \<Rightarrow> 'v js_object" where
  "insert_property k v [] = [(k, v)]"
| "insert_property k v ((k', v') # rest) =
     (case array_index k of
        None \<Rightarrow> (k', v') # insert_property k v rest
      | Some n \<Rightarrow>
          (case array_index k' of
             None \<Rightarrow> (k, v) # (k', v') # rest
           | Some m \<Rightarrow> if m < n then (k', v') # insert_property k v rest
                       else (k, v) # (k', v') # rest))"

fun replace_property :: "string \<Rightarrow> 'v \<Rightarrow> 'v js_object \<Rightarrow> 'v js_object" where
  "replace_property k v [] = []"
| "replace_property k v ((k', v') # rest) =
     (if k' = k then (k, v) # rest else (k', v') # replace_property k v rest)"

definition obj_set :: "'v js_object \<Rightarrow> string \<Rightarrow> 'v \<Rightarrow> 'v js_object" where
  "obj_set obj k v =
     (if k \<in> set (obj_keys obj) then replace_property k v obj else insert_property k v obj)"

text \<open>
  \<^verbatim>\<open>s.replace(pat, rep)\<close> with a string pattern replaces the first occurrence only;
  \<^verbatim>\<open>s.split('/').pop()\<close> is what follows the last slash.
\<close>

fun js_replace :: "string \<Rightarrow> string \<Rightarrow> string \<Rightarrow> string" where
  "js_replace pat rep [] = (if pat = [] then rep else [])"
| "js_replace pat rep (c # cs) =
     (if take (length pat) (c # cs) = pat then rep @ drop (length pat) (c # cs)
      else c # js_replace pat rep cs)"

definition split_slash_pop :: "string \<Rightarrow> string" where
  "split_slash_pop s = rev (takeWhile (\<lambda>c. c \<noteq> CHR ''/'') (rev s))"

text \<open>
  The elements of \<^verbatim>\<open>[...new Set(xs)]\<close>: a \<^verbatim>\<open>Set\<close> keeps its members in the order of
  their first insertion, and inserting a member again changes nothing.
\<close>

definition set_add :: "'a list \<Rightarrow> 'a \<Rightarrow> 'a list" where
  "set_add s x = (if x \<in> set s then s else s @ [x])"

definition new_Set :: "'a list \<Rightarrow> 'a list" where
  "new_Set xs = foldl set_add [] xs"

text \<open>
  Modelled from the spec: the constant \<^verbatim>\<open>EXTENSION_PNG\<close> of helpers/constants, which is
  not among the sources. The sources use it as the suffix of image files, next to the
  literal \<^verbatim>\<open>`${item}.png`\<close> of getBatchRange.
\<close>

definition EXTENSION_PNG :: string where
  "EXTENSION_PNG = ''.png''"

section \<open>The cache (data model)\<close>

record cache_entry =
  link :: "string option"
  name :: "string option"
  onChain :: bool

record program =
  uuid :: "string option"
  config :: "string option"

record cache =
  program :: program
  items :: "cache_entry js_object"
  authority :: "string option"

text \<open>
  What \<^verbatim>\<open>loadCache\<close> hands over: nothing at all, or a document in which \<^verbatim>\<open>program\<close>
  and \<^verbatim>\<open>items\<close> may each be missing. Both entry points replace what is missing by
  an empty object.
\<close>

record saved_cache =
  saved_program :: "program option"
  saved_items :: "cache_entry js_object option"
  saved_authority :: "string option"

definition empty_program :: program where
  "empty_program = \<lparr>uuid = None, config = None\<rparr>"

definition init_cache :: "saved_cache option \<Rightarrow> cache" where
  "init_cache saved =
     (case saved of
        None \<Rightarrow> \<lparr>program = empty_program, items = [], authority = None\<rparr>
      | Some s \<Rightarrow>
          \<lparr>program = (case saved_program s of None \<Rightarrow> empty_program | Some p \<Rightarrow> p),
           items = (case saved_items s of None \<Rightarrow> [] | Some its \<Rightarrow> its),
           authority = saved_authority s\<rparr>)"

text \<open>\<^verbatim>\<open>items[idx]?.link\<close> and \<^verbatim>\<open>items[index]?.onChain || false\<close>.\<close>

definition item_link :: "cache_entry js_object \<Rightarrow> string \<Rightarrow> string option" where
  "item_link its idx = (case obj_get its idx of None \<Rightarrow> None | Some e \<Rightarrow> link e)"

definition item_onChain :: "cache_entry js_object \<Rightarrow> string \<Rightarrow> bool" where
  "item_onChain its idx = (case obj_get its idx of None \<Rightarrow> False | Some e \<Rightarrow> onChain e)"

section \<open>Item selector (\<^verbatim>\<open>getItemsNeedingUpload\<close>)\<close>

text \<open>
  \<open>stem f\<close> stands for \<^verbatim>\<open>path.basename(f, path.extname(f))\<close> of Node's path module.
\<close>

definition getItemsNeedingUpload ::
  "(string \<Rightarrow> string) \<Rightarrow> cache_entry js_object \<Rightarrow> string list \<Rightarrow> string list" where
  "getItemsNeedingUpload stem its files =
     (let all = new_Set (obj_keys its @ map stem files)
      in filter (\<lambda>idx. \<not> truthy (item_link its idx)) all)"

text \<open>
  The selector in the words of the specification: the indices in first-seen order, every
  later duplicate suppressed, restricted to those without a link.
\<close>

fun first_seen :: "'a list \<Rightarrow> 'a list" where
  "first_seen [] = []"
| "first_seen (x # xs) = x # first_seen (filter (\<lambda>y. y \<noteq> x) xs)"


section \<open>Registry committer (\<^verbatim>\<open>writeIndices\<close>)\<close>

text \<open>
  Modelled from the spec: the helper \<^verbatim>\<open>chunks\<close> of helpers/various, which is not among
  the sources. It partitions a list into consecutive chunks of a fixed size, the last one
  possibly shorter.
\<close>

function chunks :: "'a list \<Rightarrow> nat \<Rightarrow> 'a list list" where
  "chunks xs n = (if n = 0 \<or> xs = [] then [] else take n xs # chunks (drop n xs) n)"
  by pat_completeness auto
termination
  by (relation "measure (\<lambda>(xs, n). length xs)") auto

text \<open>
  One line of a registry write, \<^verbatim>\<open>{uri: ..., name: ...}\<close>, and the events a run leaves
  behind at its external collaborators.
\<close>

type_synonym config_line = "string option \<times> string option"

text \<open>
  The registry capability \<^verbatim>\<open>anchorProgram.rpc.addConfigLines(ind, lines, ...)\<close> is a
  parameter \<open>rpc ind lines\<close>: \<open>True\<close> when the call resolves, \<open>False\<close> when it raises.
  Within one run every call has another first key \<open>ind\<close>, so a function of the arguments
  describes any pattern of failures.
\<close>

type_synonym registry = "string \<Rightarrow> config_line list \<Rightarrow> bool"

text \<open>
  The state of the commit loop: the cache items, the registry calls issued so far, and
  whether every call so far resolved (the variable \<^verbatim>\<open>uploadSuccessful\<close> of
  commands/upload.ts; \<^verbatim>\<open>writeIndices\<close> runs the same loop without that variable).
\<close>

type_synonym commit_state = "cache_entry js_object \<times> (string \<times> config_line list) list \<times> bool"

text \<open>
  \<^verbatim>\<open>indexes.map(i => ({uri: items[keys[i]].link, name: items[keys[i]].name}))\<close>. Reading
  \<^verbatim>\<open>.link\<close> of a missing entry raises a TypeError inside the \<^verbatim>\<open>try\<close>; that is \<open>None\<close>.
  The \<open>indexes\<close> are drawn from \<open>[0..<length keys]\<close>, so \<open>keys ! i\<close> is always in range.
\<close>

fun config_lines :: "cache_entry js_object \<Rightarrow> string list \<Rightarrow> nat list \<Rightarrow> config_line list option" where
  "config_lines its keys [] = Some []"
| "config_lines its keys (i # indexes) =
     (case obj_get its (keys ! i) of
        None \<Rightarrow> None
      | Some e \<Rightarrow> map_option (\<lambda>ls. (link e, name e) # ls) (config_lines its keys indexes))"

text \<open>\<^verbatim>\<open>items[keys[i]] = {...items[keys[i]], onChain: true}\<close>\<close>

definition mark_onChain :: "string list \<Rightarrow> cache_entry js_object \<Rightarrow> nat \<Rightarrow> cache_entry js_object" where
  "mark_onChain keys its i =
     obj_set its (keys ! i)
       (case obj_get its (keys ! i) of
          None \<Rightarrow> \<lparr>link = None, name = None, onChain = True\<rparr>
        | Some e \<Rightarrow> e\<lparr>onChain := True\<rparr>)"

text \<open>The body of the inner \<^verbatim>\<open>for\<close> loop, for one group \<open>indexes\<close>.\<close>

definition write_group :: "registry \<Rightarrow> string list \<Rightarrow> nat list \<Rightarrow> commit_state \<Rightarrow> commit_state" where
  "write_group rpc keys indexes st =
     (case st of (its, calls, ok) \<Rightarrow>
        (let onChain_members = filter (\<lambda>i. item_onChain its (keys ! i)) indexes;
             ind = keys ! (indexes ! 0)
         in if length onChain_members \<noteq> length indexes
            then (case config_lines its keys indexes of
                    None \<Rightarrow> (its, calls, False)
                  | Some lines \<Rightarrow>
                      if rpc ind lines
                      then (foldl (mark_onChain keys) its indexes, calls @ [(ind, lines)], ok)
                      else (its, calls @ [(ind, lines)], False))
            else (its, calls, ok)))"

text \<open>
  \<^verbatim>\<open>for (let offset = 0; offset < allIndexesInSlice.length; offset += 10)\<close> with
  \<^verbatim>\<open>indexes = allIndexesInSlice.slice(offset, offset + 10)\<close>.
\<close>

function write_slice :: "registry \<Rightarrow> string list \<Rightarrow> nat list \<Rightarrow> nat \<Rightarrow> commit_state \<Rightarrow> commit_state" where
  "write_slice rpc keys slice offset st =
     (if offset < length slice
      then write_slice rpc keys slice (offset + 10)
             (write_group rpc keys (take 10 (drop offset slice)) st)
      else st)"
  by pat_completeness auto
termination
  by (relation "measure (\<lambda>(rpc, keys, slice, offset, st). length slice - offset)") auto

text \<open>
  The whole commit phase over \<^verbatim>\<open>chunks(Array.from(Array(keys.length).keys()), 1000)\<close>.
  \<^verbatim>\<open>Promise.all\<close> lets the slices interleave at their registry calls; the model runs
  them one after the other. A group reads and writes the entries of its own keys only, so
  every interleaving issues the same calls and ends in the same cache.
\<close>

definition commit_items :: "registry \<Rightarrow> cache_entry js_object \<Rightarrow> bool \<Rightarrow> commit_state" where
  "commit_items rpc its ok =
     (let keys = obj_keys its
      in foldl (\<lambda>st slice. write_slice rpc keys slice 0 st) (its, [], ok)
           (chunks [0..<length keys] 1000))"



text \<open>
  What the commit phase does, told by groups of keys: the lines a group sends, the call it
  issues, and whether all its members are on chain already.
\<close>

definition item_name :: "cache_entry js_object \<Rightarrow> string \<Rightarrow> string option" where
  "item_name its idx = (case obj_get its idx of None \<Rightarrow> None | Some e \<Rightarrow> name e)"

definition group_call :: "cache_entry js_object \<Rightarrow> string list \<Rightarrow> string \<times> config_line list" where
  "group_call its g = (hd g, map (\<lambda>k. (item_link its k, item_name its k)) g)"

definition group_onChain :: "cache_entry js_object \<Rightarrow> string list \<Rightarrow> bool" where
  "group_onChain its g = list_all (item_onChain its) g"

definition group_committed :: "registry \<Rightarrow> cache_entry js_object \<Rightarrow> string list \<Rightarrow> bool" where
  "group_committed rpc its g =
     (\<not> group_onChain its g \<and> rpc (fst (group_call its g)) (snd (group_call its g)))"

definition commit_calls :: "registry \<Rightarrow> cache_entry js_object \<Rightarrow> (string \<times> config_line list) list" where
  "commit_calls rpc its = fst (snd (commit_items rpc its True))"

text \<open>
  The body of the inner loop once more, on the keys of a group instead of their
  positions; \<open>write_group_keys\<close> below shows that it is the same step.
\<close>

definition mark_keys :: "cache_entry js_object \<Rightarrow> string list \<Rightarrow> cache_entry js_object" where
  "mark_keys its g =
     foldl (\<lambda>its k. obj_set its k
              (case obj_get its k of
                 None \<Rightarrow> \<lparr>link = None, name = None, onChain = True\<rparr>
               | Some e \<Rightarrow> e\<lparr>onChain := True\<rparr>)) its g"

definition write_keys :: "registry \<Rightarrow> commit_state \<Rightarrow> string list \<Rightarrow> commit_state" where
  "write_keys rpc st g =
     (case st of (its, calls, ok) \<Rightarrow>
        if group_onChain its g then (its, calls, ok)
        else if rpc (fst (group_call its g)) (snd (group_call its g))
             then (mark_keys its g, calls @ [group_call its g], ok)
             else (its, calls @ [group_call its g], False))"

text \<open>
  Twenty-five cache items, keyed \<open>a\<close> to \<open>y\<close>, of which exactly the first ten are on
  chain; and a registry that rejects the call that starts at key \<open>k\<close>.
\<close>

definition items25 :: "cache_entry js_object" where
  "items25 = map (\<lambda>(i, c). ([c], \<lparr>link = Some (''https://arweave.net/'' @ [c]), name = Some [c],
                                   onChain = (i < 10)\<rparr>))
               (enumerate (0::nat) ''abcdefghijklmnopqrstuvwxy'')"

definition rpc_reject_k :: registry where
  "rpc_reject_k ind lines = (ind \<noteq> ''k'')"

section \<open>External collaborators\<close>

text \<open>
  The manifest of an item, as far as the pipeline looks into it. \<open>m_properties\<close> is absent
  when the JSON document has no \<^verbatim>\<open>properties\<close>; reading a field of it then raises.
\<close>

record properties =
  p_creators :: "(string \<times> nat) list"
  p_files :: "(string option \<times> string) list"

record manifest =
  m_name :: "string option"
  m_symbol :: "string option"
  m_seller_fee_basis_points :: "nat option"
  m_image :: "string option"
  m_properties :: "properties option"

datatype storage = ArweaveNative | Arweave | Ipfs | Aws | OtherStorage

datatype 'a outcome = Threw | Returned 'a

text \<open>A data item of a bundle: \<^verbatim>\<open>createData(data, signer, {tags})\<close>.\<close>

record data_item =
  di_data :: string
  di_tags :: "(string \<times> string) list"

text \<open>
  What a run does to the outside, in the order of the model: registry initialisation,
  uploads and registry writes, each with its result (\<open>True\<close> when the call resolved).
\<close>

datatype event =
    CreateConfig bool
  | Upload string bool
  | UploadBundle "data_item list" bool
  | AddConfigLines string "config_line list" bool

text \<open>
  Everything outside the sources is a field of the \<open>world\<close>: Node's path functions, the
  file system, the wallet, the storage backends and the registry. A call that can raise
  returns \<open>None\<close> (or \<open>Threw\<close>, or \<open>False\<close>) when it does.
  \<^item> \<open>png_size item\<close>: \<^verbatim>\<open>fs.statSync(path.join(dirname, `${item}.png`)).size\<close>;
  \<^item> \<open>read_png item\<close>: \<^verbatim>\<open>fs.readFileSync(path.join(dirname, `${item}.png`))\<close>;
  \<^item> \<open>read_item_manifest item\<close>: \<^verbatim>\<open>JSON.parse(fs.readFileSync(path.join(dirname, `${item}.json`)))\<close>;
  \<^item> \<open>read_manifest manifestPath imageName\<close>: the manifest that upload_one_item parses
    from the file at \<open>manifestPath\<close> after replacing \<open>imageName\<close> by \<^verbatim>\<open>image.png\<close>;
  \<^item> \<open>read_jwk\<close>: whether \<^verbatim>\<open>JSON.parse(fs.readFileSync(jwk).toString())\<close> returns;
  \<^item> \<open>load_wallet\<close>: the base58 public key of the wallet when \<^verbatim>\<open>loadWalletKey\<close> and
    \<^verbatim>\<open>loadCandyProgram\<close> return;
  \<^item> \<open>createConfig totalNFTs mutable retainAuthority manifest\<close>: the \<open>(uuid, config)\<close>
    of the registry object that \<^verbatim>\<open>createConfig\<close> creates from the manifest's symbol,
    fee and creators;
  \<^item> \<open>upload_file storage file manifest\<close>: \<^verbatim>\<open>arweaveUpload\<close>, \<^verbatim>\<open>ipfsUpload\<close> or
    \<^verbatim>\<open>awsUpload\<close>;
  \<^item> \<open>post_bundle items\<close>: whether signing and posting the bundle goes through, and
    \<open>bundle_id items n\<close>: the transaction id of its \<open>n\<close>-th data item (\<^verbatim>\<open>bundle.getIds()\<close>);
  \<^item> \<open>addConfigLines\<close>: the registry write.
\<close>

record world =
  path_basename :: "string \<Rightarrow> string"
  path_basename_ext :: "string \<Rightarrow> string \<Rightarrow> string"
  path_extname :: "string \<Rightarrow> string"
  png_size :: "string \<Rightarrow> nat option"
  read_png :: "string \<Rightarrow> string option"
  read_item_manifest :: "string \<Rightarrow> manifest option"
  read_manifest :: "string \<Rightarrow> string \<Rightarrow> manifest option"
  read_jwk :: bool
  stringify :: "manifest \<Rightarrow> string"
  load_wallet :: "string option"
  createConfig :: "nat \<Rightarrow> bool \<Rightarrow> bool \<Rightarrow> manifest \<Rightarrow> (string \<times> string) option"
  upload_file :: "storage \<Rightarrow> string \<Rightarrow> manifest \<Rightarrow> string option outcome"
  post_bundle :: "data_item list \<Rightarrow> bool"
  bundle_id :: "data_item list \<Rightarrow> nat \<Rightarrow> string"
  addConfigLines :: registry

text \<open>The arguments of \<^verbatim>\<open>upload\<close> that the model looks at.\<close>

record params =
  totalNFTs :: nat
  storage_of :: storage
  retainAuthority :: bool
  mutable :: bool

text \<open>
  The result of a run: the value the promise resolves to or the exception it rejects
  with, the cache as the last \<^verbatim>\<open>saveCache\<close> left it, and the events.
\<close>

record 'a run =
  outcome :: "error + 'a"
  final_cache :: cache
  trace :: "event list"

section \<open>Upload executor, bundle path (helpers/upload/arweave-bundle.ts)\<close>

definition baseTags :: "(string \<times> string) list" where
  "baseTags = [(''App-Name'', ''Metaplex Candy Machine''), (''App-Version'', ''1.0.0'')]"

fun getImageDataItems :: "world \<Rightarrow> string list \<Rightarrow> error + data_item list" where
  "getImageDataItems w [] = Inr []"
| "getImageDataItems w (img # images) =
     (case read_png w img of
        None \<Rightarrow> Inl (ReadFailed (img @ ''.png''))
      | Some data \<Rightarrow>
          (case getImageDataItems w images of
             Inl e \<Rightarrow> Inl e
           | Inr ds \<Rightarrow> Inr (\<lparr>di_data = data,
                              di_tags = baseTags @ [(''Content-Type'', ''image/png'')]\<rparr> # ds)))"

text \<open>\<^verbatim>\<open>xs[idx]\<close>, which is \<^verbatim>\<open>undefined\<close> out of range.\<close>

definition js_nth :: "'a list \<Rightarrow> nat \<Rightarrow> 'a option" where
  "js_nth xs idx = (if idx < length xs then Some (xs ! idx) else None)"

text \<open>
  \<^verbatim>\<open>getUpdatedManifests(batch, dirname, imageLinks)\<close>, item \<open>idx\<close> onwards. Assigning
  \<^verbatim>\<open>manifest.properties.files\<close> raises when the manifest has no \<^verbatim>\<open>properties\<close>.
\<close>

fun getUpdatedManifests_from :: "world \<Rightarrow> string list \<Rightarrow> string list \<Rightarrow> nat \<Rightarrow> error + manifest list" where
  "getUpdatedManifests_from w [] imageLinks idx = Inr []"
| "getUpdatedManifests_from w (item # batch) imageLinks idx =
     (case read_item_manifest w item of
        None \<Rightarrow> Inl (ReadFailed (item @ ''.json''))
      | Some m \<Rightarrow>
          (case m_properties m of
             None \<Rightarrow> Inl (ReadFailed (item @ ''.json''))
           | Some props \<Rightarrow>
               (case getUpdatedManifests_from w batch imageLinks (idx + 1) of
                  Inl e \<Rightarrow> Inl e
                | Inr ms \<Rightarrow>
                    Inr (m\<lparr>m_image := js_nth imageLinks idx,
                           m_properties :=
                             Some (props\<lparr>p_files := [(js_nth imageLinks idx, ''image/png'')]\<rparr>)\<rparr>
                         # ms))))"

definition getUpdatedManifests :: "world \<Rightarrow> string list \<Rightarrow> string list \<Rightarrow> error + manifest list" where
  "getUpdatedManifests w batch imageLinks = getUpdatedManifests_from w batch imageLinks 0"

definition getManifestDataItems :: "world \<Rightarrow> manifest list \<Rightarrow> data_item list" where
  "getManifestDataItems w manifests =
     map (\<lambda>m. \<lparr>di_data = stringify w m,
                di_tags = baseTags @ [(''Content-Type'', ''application/json'')]\<rparr>) manifests"

definition uploadBatchBundle :: "world \<Rightarrow> data_item list \<Rightarrow> string list option" where
  "uploadBatchBundle w dataItems =
     (if post_bundle w dataItems
      then Some (map (\<lambda>n. ''https://arweave.net/'' @ bundle_id w dataItems n) [0..<length dataItems])
      else None)"

text \<open>
  The \<^verbatim>\<open>async batch => ...\<close> of arweaveBundleUpload for one batch: its result (the
  updated manifests, the manifest links and the indices) or the exception it rejects
  with, and the bundle uploads it made.
\<close>

definition upload_batch ::
  "world \<Rightarrow> string list \<Rightarrow> (error + manifest list \<times> string list \<times> string list) \<times> event list" where
  "upload_batch w batch =
     (case getImageDataItems w batch of
        Inl e \<Rightarrow> (Inl e, [])
      | Inr images \<Rightarrow>
          (case uploadBatchBundle w images of
             None \<Rightarrow> (Inl BundleUploadFailed, [UploadBundle images False])
           | Some imageLinks \<Rightarrow>
               (case getUpdatedManifests w batch imageLinks of
                  Inl e \<Rightarrow> (Inl e, [UploadBundle images True])
                | Inr updatedManifests \<Rightarrow>
                    (let manifestItems = getManifestDataItems w updatedManifests
                     in case uploadBatchBundle w manifestItems of
                          None \<Rightarrow> (Inl BundleUploadFailed,
                                     [UploadBundle images True, UploadBundle manifestItems False])
                        | Some manifestLinks \<Rightarrow>
                            (Inr (updatedManifests, manifestLinks,
                                  map (\<lambda>image. js_replace EXTENSION_PNG [] (path_basename w image)) batch),
                             [UploadBundle images True, UploadBundle manifestItems True])))))"

text \<open>
  \<^verbatim>\<open>Promise.all\<close>: the results of all promises, or the first rejection. The model takes
  the first rejection in the order of the list.
\<close>

fun promise_all :: "(error + 'a) list \<Rightarrow> error + 'a list" where
  "promise_all [] = Inr []"
| "promise_all (Inl e # rs) = Inl e"
| "promise_all (Inr x # rs) = (case promise_all rs of Inl e \<Rightarrow> Inl e | Inr xs \<Rightarrow> Inr (x # xs))"

text \<open>
  \<^verbatim>\<open>arweaveBundleUpload(dirname, _items, jwk)\<close>: all batches are planned first; an
  exception of the planner leaves the function before \<^verbatim>\<open>batches.map\<close> starts any
  batch. Then every batch is started, and the events list the uploads batch by batch.
\<close>

definition arweaveBundleUpload ::
  "world \<Rightarrow> string list \<Rightarrow> (error + (manifest list \<times> string list \<times> string list) list) \<times> event list" where
  "arweaveBundleUpload w pending =
     (case plan_batches (png_size w) pending [] of
        Inl e \<Rightarrow> (Inl e, [])
      | Inr batches \<Rightarrow>
          (let rs = map (upload_batch w) batches
           in (promise_all (map fst rs), concat (map snd rs))))"

section \<open>The entry point with the bundle path (\<^verbatim>\<open>upload\<close> of part\_000)\<close>

text \<open>
  \<^verbatim>\<open>saveManifestsWithLink(cache, manifests, links, indices)\<close>, manifest \<open>idx\<close> onwards. An
  index out of range would be \<^verbatim>\<open>undefined\<close>, which as a property key reads
  \<^verbatim>\<open>"undefined"\<close>.
\<close>

fun saveManifestsWithLink_from ::
  "cache_entry js_object \<Rightarrow> manifest list \<Rightarrow> string list \<Rightarrow> string list \<Rightarrow> nat \<Rightarrow> cache_entry js_object" where
  "saveManifestsWithLink_from its [] links indices idx = its"
| "saveManifestsWithLink_from its (m # manifests) links indices idx =
     saveManifestsWithLink_from
       (obj_set its (case js_nth indices idx of None \<Rightarrow> ''undefined'' | Some k \<Rightarrow> k)
          \<lparr>link = js_nth links idx, name = m_name m, onChain = False\<rparr>)
       manifests links indices (idx + 1)"

definition saveManifestsWithLink :: "cache \<Rightarrow> manifest list \<Rightarrow> string list \<Rightarrow> string list \<Rightarrow> cache" where
  "saveManifestsWithLink c manifests links indices =
     c\<lparr>items := saveManifestsWithLink_from (items c) manifests links indices 0\<rparr>"

text \<open>
  The loop over \<^verbatim>\<open>needUpload\<close> for the other backends. An exception of a read or of an
  upload leaves \<^verbatim>\<open>upload\<close>; the link an upload returns is not used. The \<^verbatim>\<open>default\<close>
  case of the \<^verbatim>\<open>switch\<close> loads the wallet before it uploads.
\<close>

fun upload_each :: "world \<Rightarrow> storage \<Rightarrow> string list \<Rightarrow> event list \<Rightarrow> (error + unit) \<times> event list" where
  "upload_each w st [] tr = (Inr (), tr)"
| "upload_each w st (toUpload # rest) tr =
     (case read_item_manifest w toUpload of
        None \<Rightarrow> (Inl (ReadFailed (toUpload @ ''.json'')), tr)
      | Some m \<Rightarrow>
          if st \<noteq> Ipfs \<and> st \<noteq> Aws \<and> load_wallet w = None then (Inl WalletFailed, tr)
          else (case upload_file w st toUpload m of
                  Threw \<Rightarrow> (Inl (UploadFailed toUpload), tr @ [Upload toUpload False])
                | Returned l \<Rightarrow> upload_each w st rest (tr @ [Upload toUpload True])))"

text \<open>\<^verbatim>\<open>initConfig\<close>: on success the handle goes into \<^verbatim>\<open>cache.program\<close> and the cache is saved.\<close>

definition initConfig :: "world \<Rightarrow> params \<Rightarrow> manifest \<Rightarrow> cache \<Rightarrow> error + cache" where
  "initConfig w p m c =
     (case createConfig w (totalNFTs p) (mutable p) (retainAuthority p) m of
        None \<Rightarrow> Inl CreateConfigFailed
      | Some (u, cfg) \<Rightarrow> Inr (c\<lparr>program := (program c)\<lparr>uuid := Some u, config := Some cfg\<rparr>\<rparr>))"

text \<open>\<^verbatim>\<open>writeIndices\<close>: the commit loop; nothing is returned.\<close>

definition writeIndices :: "world \<Rightarrow> cache \<Rightarrow> cache \<times> event list" where
  "writeIndices w c =
     (case commit_items (addConfigLines w) (items c) True of
        (its, calls, ok) \<Rightarrow>
          (c\<lparr>items := its\<rparr>,
           map (\<lambda>(ind, lines). AddConfigLines ind lines (addConfigLines w ind lines)) calls))"

text \<open>The upload phase of \<^verbatim>\<open>upload\<close>, entered when \<^verbatim>\<open>needUpload\<close> is not empty.\<close>

definition upload_phase :: "world \<Rightarrow> params \<Rightarrow> string list \<Rightarrow> cache \<Rightarrow> (error + cache) \<times> event list" where
  "upload_phase w p needUpload c =
     (if storage_of p = ArweaveNative
      then (if \<not> read_jwk w then (Inl (ReadFailed ''jwk''), [])
            else (case arweaveBundleUpload w needUpload of
                    (Inl e, tr) \<Rightarrow> (Inl e, tr)
                  | (Inr bundleUploads, tr) \<Rightarrow>
                      (Inr (saveManifestsWithLink c
                              (concat (map fst bundleUploads))
                              (concat (map (\<lambda>b. fst (snd b)) bundleUploads))
                              (concat (map (\<lambda>b. snd (snd b)) bundleUploads))), tr)))
      else (case upload_each w (storage_of p) needUpload [] of
              (Inl e, tr) \<Rightarrow> (Inl e, tr)
            | (Inr u, tr) \<Rightarrow> (Inr c, tr)))"

text \<open>
  \<^verbatim>\<open>upload({files, ...}): Promise<void>\<close>. \<^verbatim>\<open>path.dirname(files[0])\<close> raises a TypeError
  for an empty file list. \<open>file_stem\<close> is \<^verbatim>\<open>path.basename(filePath, path.extname(filePath))\<close>.
  The manifest of item \<^verbatim>\<open>0\<close> is read, and destructured, whether or not the registry is
  initialised already.
\<close>

definition file_stem :: "world \<Rightarrow> string \<Rightarrow> string" where
  "file_stem w filePath = path_basename_ext w filePath (path_extname w filePath)"

definition upload_bundle :: "world \<Rightarrow> params \<Rightarrow> string list \<Rightarrow> saved_cache option \<Rightarrow> unit run" where
  "upload_bundle w p files saved =
     (let c0 = init_cache saved
      in if files = [] then \<lparr>outcome = Inl InvalidArgType, final_cache = c0, trace = []\<rparr>
         else
           (let needUpload = getItemsNeedingUpload (file_stem w) (items c0) files
            in case (if needUpload \<noteq> [] then upload_phase w p needUpload c0 else (Inr c0, [])) of
                 (Inl e, tr) \<Rightarrow> \<lparr>outcome = Inl e, final_cache = c0, trace = tr\<rparr>
               | (Inr c1, tr) \<Rightarrow>
                   (case read_item_manifest w ''0'' of
                      None \<Rightarrow> \<lparr>outcome = Inl (ReadFailed ''0.json''), final_cache = c1, trace = tr\<rparr>
                    | Some m0 \<Rightarrow>
                        if m_properties m0 = None
                        then \<lparr>outcome = Inl (ReadFailed ''0.json''), final_cache = c1, trace = tr\<rparr>
                        else if load_wallet w = None
                        then \<lparr>outcome = Inl WalletFailed, final_cache = c1, trace = tr\<rparr>
                        else
                          (case (if truthy (config (program c1)) then Inr (c1, [])
                                 else (case initConfig w p m0 c1 of
                                         Inl e \<Rightarrow> Inl e
                                       | Inr c2 \<Rightarrow> Inr (c2, [CreateConfig True]))) of
                             Inl e \<Rightarrow> \<lparr>outcome = Inl e, final_cache = c1,
                                        trace = tr @ [CreateConfig False]\<rparr>
                           | Inr (c2, tr2) \<Rightarrow>
                               (case writeIndices w c2 of
                                  (c3, tr3) \<Rightarrow>
                                    \<lparr>outcome = Inr (), final_cache = c3,
                                     trace = tr @ tr2 @ tr3\<rparr>)))))"

section \<open>The entry point with count-bounded batches (commands/upload.ts)\<close>

definition BATCH_SIZE :: "storage \<Rightarrow> nat option" where
  "BATCH_SIZE st = (case st of Arweave \<Rightarrow> Some 5 | Ipfs \<Rightarrow> Some 1 | Aws \<Rightarrow> Some 1 | _ \<Rightarrow> None)"

text \<open>
  \<^verbatim>\<open>const seen = {}\<close> is a plain object, so \<^verbatim>\<open>seen[k]\<close> is also truthy for the names
  that every object inherits from \<^verbatim>\<open>Object.prototype\<close>. The model keeps the keys set
  so far in a list.
\<close>

definition Object_prototype_keys :: "string list" where
  "Object_prototype_keys =
     [''constructor'', ''__defineGetter__'', ''__defineSetter__'', ''hasOwnProperty'',
      ''__lookupGetter__'', ''__lookupSetter__'', ''isPrototypeOf'', ''propertyIsEnumerable'',
      ''toString'', ''valueOf'', ''__proto__'', ''toLocaleString'']"

definition seen_truthy :: "string list \<Rightarrow> string \<Rightarrow> bool" where
  "seen_truthy seen k = (k \<in> set seen \<or> k \<in> set Object_prototype_keys)"

text \<open>
  The two \<^verbatim>\<open>forEach\<close> loops that fill \<^verbatim>\<open>newFiles\<close>: first the files, keyed by
  \<^verbatim>\<open>f.replace(EXTENSION_PNG, '').split('/').pop()\<close>, then the cache keys, which enter
  as \<^verbatim>\<open>f + '.png'\<close>. The state is the pair of \<^verbatim>\<open>seen\<close> and \<^verbatim>\<open>newFiles\<close>.
\<close>

definition scan_file :: "string list \<times> string list \<Rightarrow> string \<Rightarrow> string list \<times> string list" where
  "scan_file st f =
     (case st of (seen, newFiles) \<Rightarrow>
        (let k = split_slash_pop (js_replace EXTENSION_PNG [] f)
         in if \<not> seen_truthy seen k then (seen @ [k], newFiles @ [f]) else (seen, newFiles)))"

definition scan_cached :: "string list \<times> string list \<Rightarrow> string \<Rightarrow> string list \<times> string list" where
  "scan_cached st f =
     (case st of (seen, newFiles) \<Rightarrow>
        if \<not> seen_truthy seen f then (seen @ [f], newFiles @ [f @ ''.png'']) else (seen, newFiles))"

definition images_of :: "world \<Rightarrow> string list \<Rightarrow> string list \<Rightarrow> string list" where
  "images_of w files existingInCache =
     (let newFiles = snd (foldl scan_cached (foldl scan_file ([], []) files) existingInCache)
      in filter (\<lambda>val. path_extname w val = EXTENSION_PNG) newFiles)"

text \<open>
  \<^verbatim>\<open>upload_one_item\<close>. Up to its first \<^verbatim>\<open>await\<close> the function only reads the cache, and
  the promises of a window are all created before any of them goes on; so every read is
  from the cache as it is when the window starts (\<open>snap\<close>). What the item writes later is
  returned as a function on the cache. The promise rejects when the manifest cannot be
  read or when \<^verbatim>\<open>createConfig\<close> raises; an exception of the upload is caught and makes
  the promise resolve to \<^verbatim>\<open>false\<close>. For a storage other than the three known ones no
  upload is made and \<^verbatim>\<open>link\<close> stays undefined.
\<close>

record item_effect =
  resolved :: "error + bool"
  writes :: "cache \<Rightarrow> cache"
  item_events :: "event list"

definition set_program :: "string \<Rightarrow> string \<Rightarrow> cache \<Rightarrow> cache" where
  "set_program u cfg c = c\<lparr>program := (program c)\<lparr>uuid := Some u, config := Some cfg\<rparr>\<rparr>"

definition set_item :: "string \<Rightarrow> cache_entry \<Rightarrow> string \<Rightarrow> cache \<Rightarrow> cache" where
  "set_item index e pk c = c\<lparr>items := obj_set (items c) index e, authority := Some pk\<rparr>"

definition upload_link ::
  "world \<Rightarrow> params \<Rightarrow> string \<Rightarrow> string \<Rightarrow> string \<Rightarrow> manifest
     \<Rightarrow> (cache \<Rightarrow> cache) \<Rightarrow> event list \<Rightarrow> item_effect" where
  "upload_link w p pk img index m wr ev =
     (if storage_of p = Arweave \<or> storage_of p = Ipfs \<or> storage_of p = Aws
      then (case upload_file w (storage_of p) img m of
              Threw \<Rightarrow> \<lparr>resolved = Inr False, writes = wr, item_events = ev @ [Upload img False]\<rparr>
            | Returned l \<Rightarrow>
                if truthy l
                then \<lparr>resolved = Inr True,
                      writes = set_item index \<lparr>link = l, name = m_name m, onChain = False\<rparr> pk \<circ> wr,
                      item_events = ev @ [Upload img True]\<rparr>
                else \<lparr>resolved = Inr True, writes = wr, item_events = ev @ [Upload img True]\<rparr>)
      else \<lparr>resolved = Inr True, writes = wr, item_events = ev\<rparr>)"

definition upload_one_item :: "world \<Rightarrow> params \<Rightarrow> string \<Rightarrow> string \<Rightarrow> nat \<Rightarrow> cache \<Rightarrow> item_effect" where
  "upload_one_item w p pk img i snap =
     (let imageName = path_basename w img;
          index = js_replace EXTENSION_PNG [] imageName;
          link0 = item_link (items snap) index
      in if \<not> truthy link0 \<or> \<not> truthy (uuid (program snap))
         then (case read_manifest w (js_replace EXTENSION_PNG ''.json'' img) imageName of
                 None \<Rightarrow> \<lparr>resolved = Inl (ReadFailed (js_replace EXTENSION_PNG ''.json'' img)),
                           writes = id, item_events = []\<rparr>
               | Some m \<Rightarrow>
                   if i = 0 \<and> \<not> truthy (uuid (program snap))
                   then (case createConfig w (totalNFTs p) (mutable p) (retainAuthority p) m of
                           None \<Rightarrow> \<lparr>resolved = Inl CreateConfigFailed, writes = id,
                                     item_events = [CreateConfig False]\<rparr>
                         | Some (u, cfg) \<Rightarrow>
                             if \<not> truthy link0
                             then upload_link w p pk img index m (set_program u cfg) [CreateConfig True]
                             else \<lparr>resolved = Inr True, writes = set_program u cfg,
                                   item_events = [CreateConfig True]\<rparr>)
                   else if \<not> truthy link0 then upload_link w p pk img index m id []
                   else \<lparr>resolved = Inr True, writes = id, item_events = []\<rparr>)
         else \<lparr>resolved = Inr True, writes = id, item_events = []\<rparr>)"

text \<open>
  The \<^verbatim>\<open>while (currentBatchStartIndex < SIZE)\<close> loop. The state is the cache, the flag
  \<^verbatim>\<open>uploadSuccessful\<close> and the events. When a promise of the window rejects,
  \<^verbatim>\<open>await Promise.all\<close> raises and \<^verbatim>\<open>upload\<close> is left before \<^verbatim>\<open>saveCache\<close>: the cache
  on disk is the one of the window's start. For a storage without an entry in
  \<^verbatim>\<open>BATCH_SIZE\<close> the bound of the inner loop and the next start index are \<^verbatim>\<open>NaN\<close>: no
  promise is created and the loop ends after one round.
\<close>

type_synonym upload_state = "cache \<times> bool \<times> event list"

function upload_windows ::
  "world \<Rightarrow> params \<Rightarrow> string \<Rightarrow> string list \<Rightarrow> nat \<Rightarrow> upload_state \<Rightarrow> (error \<times> cache \<times> event list) + upload_state" where
  "upload_windows w p pk images currentBatchStartIndex st =
     (case st of (c, uploadSuccessful, tr) \<Rightarrow>
        if currentBatchStartIndex < length images
        then (case BATCH_SIZE (storage_of p) of
                None \<Rightarrow> Inr (c, uploadSuccessful, tr)
              | Some b \<Rightarrow>
                  (let promises = map (\<lambda>i. upload_one_item w p pk (images ! i) i c)
                                    [currentBatchStartIndex..<min (currentBatchStartIndex + b) (length images)];
                       tr' = tr @ concat (map item_events promises)
                   in case promise_all (map resolved promises) of
                        Inl e \<Rightarrow> Inl (e, c, tr')
                      | Inr flags \<Rightarrow>
                          upload_windows w p pk images (currentBatchStartIndex + b)
                            (foldl (\<lambda>c eff. writes eff c) c promises,
                             list_all (\<lambda>x. x) flags \<and> uploadSuccessful, tr')))
        else Inr (c, uploadSuccessful, tr))"
  by pat_completeness auto

lemma BATCH_SIZE_pos: "BATCH_SIZE st = Some b \<Longrightarrow> 0 < b"
  by (cases st) (auto simp: BATCH_SIZE_def)

termination upload_windows
  by (relation "measure (\<lambda>(w, p, pk, images, cur, st). length images - cur)")
     (auto dest: BATCH_SIZE_pos)

text \<open>
  \<^verbatim>\<open>upload(files, ...): Promise<boolean>\<close>. \<^verbatim>\<open>existingInCache\<close> is empty when the loaded
  cache has no \<^verbatim>\<open>items\<close>. The commit loop is the one of \<open>commit_items\<close>, started with
  the flag the uploads left.
\<close>

definition existing_keys :: "saved_cache option \<Rightarrow> string list" where
  "existing_keys saved =
     (case saved of
        None \<Rightarrow> []
      | Some s \<Rightarrow> (case saved_items s of None \<Rightarrow> [] | Some its \<Rightarrow> obj_keys its))"

definition upload :: "world \<Rightarrow> params \<Rightarrow> string list \<Rightarrow> saved_cache option \<Rightarrow> bool run" where
  "upload w p files saved =
     (let cacheContent = init_cache saved;
          images = images_of w files (existing_keys saved)
      in case load_wallet w of
           None \<Rightarrow> \<lparr>outcome = Inl WalletFailed, final_cache = cacheContent, trace = []\<rparr>
         | Some pk \<Rightarrow>
             (case upload_windows w p pk images 0 (cacheContent, True, []) of
                Inl (e, c, tr) \<Rightarrow> \<lparr>outcome = Inl e, final_cache = c, trace = tr\<rparr>
              | Inr (c, uploadSuccessful, tr) \<Rightarrow>
                  (case commit_items (addConfigLines w) (items c) uploadSuccessful of
                     (its, calls, ok) \<Rightarrow>
                       \<lparr>outcome = Inr ok, final_cache = c\<lparr>items := its\<rparr>,
                        trace = tr @ map (\<lambda>(ind, lines).
                                  AddConfigLines ind lines (addConfigLines w ind lines)) calls\<rparr>)))"

section \<open>A world to run the entry points in\<close>

text \<open>
  The theorems below hold for every world. To evaluate the entry points on concrete
  inputs, \<open>world_ex\<close> is a world in which every file can be read and every collaborator
  succeeds; its path functions agree with Node's on paths of the form \<^verbatim>\<open>dir/name.ext\<close>.
  Single fields are overridden where a run needs a failure.
\<close>

definition manifest_ex :: "string \<Rightarrow> manifest" where
  "manifest_ex nm =
     \<lparr>m_name = Some nm, m_symbol = Some ''SYM'', m_seller_fee_basis_points = Some 500,
      m_image = Some ''image.png'',
      m_properties = Some \<lparr>p_creators = [(''creator'', 100)], p_files = []\<rparr>\<rparr>"

definition extname_ex :: "string \<Rightarrow> string" where
  "extname_ex f =
     (let b = split_slash_pop f
      in if CHR ''.'' \<in> set b then CHR ''.'' # rev (takeWhile (\<lambda>c. c \<noteq> CHR ''.'') (rev b)) else [])"

definition basename_ext_ex :: "string \<Rightarrow> string \<Rightarrow> string" where
  "basename_ext_ex f ext =
     (let b = split_slash_pop f
      in if ext \<noteq> [] \<and> length ext < length b \<and> drop (length b - length ext) b = ext
         then take (length b - length ext) b else b)"

definition world_ex :: world where
  "world_ex =
     \<lparr>path_basename = split_slash_pop,
      path_basename_ext = basename_ext_ex,
      path_extname = extname_ex,
      png_size = (\<lambda>item. Some 1000),
      read_png = (\<lambda>item. Some (''png of '' @ item)),
      read_item_manifest = (\<lambda>item. Some (manifest_ex item)),
      read_manifest = (\<lambda>manifestPath imageName. Some (manifest_ex manifestPath)),
      read_jwk = True,
      stringify = (\<lambda>m. ''json of '' @ (case m_name m of None \<Rightarrow> [] | Some nm \<Rightarrow> nm)),
      load_wallet = Some ''wallet'',
      createConfig = (\<lambda>n mut ret m. Some (''uuid'', ''config'')),
      upload_file = (\<lambda>st file m. Returned (Some (''https://arweave.net/'' @ file))),
      post_bundle = (\<lambda>ds. True),
      bundle_id = (\<lambda>ds n. di_data (ds ! n)),
      addConfigLines = (\<lambda>ind lines. True)\<rparr>"

definition params_ex :: "storage \<Rightarrow> params" where
  "params_ex st = \<lparr>totalNFTs = 5, storage_of = st, retainAuthority = True, mutable = True\<rparr>"

text \<open>A bundle endpoint that accepts bundles of images and rejects all others.\<close>

definition images_only :: "data_item list \<Rightarrow> bool" where
  "images_only ds = list_all (\<lambda>d. (''Content-Type'', ''image/png'') \<in> set (di_tags d)) ds"

section \<open>Reading the events of a run\<close>

fun is_upload :: "event \<Rightarrow> bool" where
  "is_upload (Upload f ok) = True"
| "is_upload (UploadBundle ds ok) = True"
| "is_upload e = False"

fun is_registry_write :: "event \<Rightarrow> bool" where
  "is_registry_write (AddConfigLines ind lines ok) = True"
| "is_registry_write e = False"

text \<open>Whether the call behind an event resolved.\<close>

fun event_ok :: "event \<Rightarrow> bool" where
  "event_ok (CreateConfig ok) = ok"
| "event_ok (Upload f ok) = ok"
| "event_ok (UploadBundle ds ok) = ok"
| "event_ok (AddConfigLines ind lines ok) = ok"

text \<open>The cache key under which upload_one_item files an image.\<close>

definition image_index :: "world \<Rightarrow> string \<Rightarrow> string" where
  "image_index w img = js_replace EXTENSION_PNG [] (path_basename w img)"

text \<open>A cache file in which both items are uploaded and on chain.\<close>

definition saved_done :: saved_cache where
  "saved_done =
     \<lparr>saved_program = Some \<lparr>uuid = Some ''uuid'', config = Some ''config''\<rparr>,
      saved_items = Some
        [(''0'', \<lparr>link = Some ''https://arweave.net/m0'', name = Some ''zero'', onChain = True\<rparr>),
         (''1'', \<lparr>link = Some ''https://arweave.net/m1'', name = Some ''one'', onChain = True\<rparr>)],
      saved_authority = Some ''wallet''\<rparr>"

text \<open>The events that are item uploads or registry writes.\<close>

definition is_transfer :: "event \<Rightarrow> bool" where
  "is_transfer e = (is_upload e \<or> is_registry_write e)"

text \<open>The exceptions that end a run of commands/upload.ts.\<close>

fun is_fatal :: "error \<Rightarrow> bool" where
  "is_fatal WalletFailed = True"
| "is_fatal CreateConfigFailed = True"
| "is_fatal (ReadFailed f) = True"
| "is_fatal e = False"

definition known_storage :: "storage \<Rightarrow> bool" where
  "known_storage st = (st = Arweave \<or> st = Ipfs \<or> st = Aws)"

section \<open>The cache invariant\<close>

text \<open>
  The invariant of the specification: an entry that is on chain has a non-empty link.
  \<open>all_linked\<close> is the stronger property that every entry has one.
\<close>

definition cache_invariant :: "cache_entry js_object \<Rightarrow> bool" where
  "cache_invariant its = list_all (\<lambda>(k, e). onChain e \<longrightarrow> truthy (link e)) its"

definition all_linked :: "cache_entry js_object \<Rightarrow> bool" where
  "all_linked its = list_all (\<lambda>(k, e). truthy (link e)) its"

text \<open>
  A write to the cache is benign when it leaves the items alone or files one entry that
  has a link and is not on chain.
\<close>

definition benign :: "(cache \<Rightarrow> cache) \<Rightarrow> bool" where
  "benign wr =
     (\<forall>c. items (wr c) = items c
          \<or> (\<exists>k l n. truthy l
                \<and> items (wr c) = obj_set (items c) k \<lparr>link = l, name = n, onChain = False\<rparr>))"

text \<open>
  How the cache items may change during a run: links stay, keys stay, and both
  invariants are kept.
\<close>

definition cache_grows :: "cache_entry js_object \<Rightarrow> cache_entry js_object \<Rightarrow> bool" where
  "cache_grows a b =
     ((\<forall>k. truthy (item_link a k) \<longrightarrow> truthy (item_link b k))
      \<and> set (obj_keys a) \<subseteq> set (obj_keys b)
      \<and> (all_linked a \<longrightarrow> all_linked b)
      \<and> (cache_invariant a \<longrightarrow> cache_invariant b))"




text \<open>A registry that rejects every write, and a backend that fails on every upload.\<close>

definition world_registry_down :: world where
  "world_registry_down = world_ex\<lparr>addConfigLines := (\<lambda>ind lines. False)\<rparr>"

definition world_uploads_down :: world where
  "world_uploads_down = world_ex\<lparr>upload_file := (\<lambda>st file m. Threw)\<rparr>"




section \<open>Properties of the batch planner\<close>

declare plan_batches.simps [simp del]

lemma cumulated_size_simps [simp]:
  "cumulated_size stat [] = 0"
  "cumulated_size stat (x # xs) = (case stat x of None \<Rightarrow> 0 | Some s \<Rightarrow> s) + cumulated_size stat xs"
  "cumulated_size stat (xs @ ys) = cumulated_size stat xs + cumulated_size stat ys"
  by (simp_all add: cumulated_size_def)

lemma getBatchRange_loop_spec:
  "getBatchRange_loop stat pending tot rng = Inr r \<Longrightarrow> tot < BATCH_SIZE_LIMIT \<Longrightarrow>
     r - rng \<le> length pending \<and>
     tot + cumulated_size stat (take (r - rng) pending) < BATCH_SIZE_LIMIT \<and>
     (case drop (r - rng) pending of [] \<Rightarrow> True
      | x # _ \<Rightarrow> BATCH_SIZE_LIMIT \<le> tot + cumulated_size stat (take (r - rng) pending @ [x]))"
proof (induction pending arbitrary: tot rng)
  case Nil
  then show ?case by simp
next
  case (Cons item pending)
  show ?case
  proof (cases "stat item")
    case None
    with Cons.prems show ?thesis by simp
  next
    case (Some sz)
    show ?thesis
    proof (cases "BATCH_SIZE_LIMIT \<le> tot + sz")
      case True
      with Some Cons.prems have "r = rng" by (simp add: Let_def split: if_splits)
      with True Some Cons.prems show ?thesis by simp
    next
      case False
      with Some Cons.prems have rec: "getBatchRange_loop stat pending (tot + sz) (Suc rng) = Inr r"
        by (simp add: Let_def)
      from getBatchRange_loop_ge[OF rec] have ge: "Suc rng \<le> r" .
      then have eq: "r - rng = Suc (r - Suc rng)" by simp
      from False have "tot + sz < BATCH_SIZE_LIMIT" by simp
      from Cons.IH[OF rec this] show ?thesis
        unfolding eq using Some by (simp add: add.assoc split: list.splits)
    qed
  qed
qed

lemma getBatchRange_spec:
  assumes "getBatchRange stat pending = Inr r"
  shows "r \<le> length pending"
    and "cumulated_size stat (take r pending) < BATCH_SIZE_LIMIT"
    and "case drop r pending of [] \<Rightarrow> True
         | x # _ \<Rightarrow> BATCH_SIZE_LIMIT \<le> cumulated_size stat (take r pending @ [x])"
  using getBatchRange_loop_spec[of stat pending 0 0 r] assms
  by (simp_all add: getBatchRange_def BATCH_SIZE_LIMIT_def split: list.splits)

lemma getBatchRange_pos:
  "getBatchRange stat pending = Inr r \<Longrightarrow> pending \<noteq> [] \<Longrightarrow> 0 < r"
  by (simp add: getBatchRange_def getBatchRange_loop_pos)

lemma plan_batches_spec:
  "plan_batches stat pending acc = Inr bs \<Longrightarrow>
     \<exists>new. bs = acc @ new \<and> concat new = pending \<and>
       (\<forall>b\<in>set new. b \<noteq> [] \<and> cumulated_size stat b < BATCH_SIZE_LIMIT) \<and> greedy stat new"
proof (induction stat pending acc rule: plan_batches.induct)
  case (1 stat pending batches)
  show ?case
  proof (cases "pending = []")
    case True
    with "1.prems" show ?thesis by (simp add: plan_batches.simps)
  next
    case False
    with "1.prems" obtain r where r: "getBatchRange stat pending = Inr r"
      and rec: "plan_batches stat (drop r pending) (batches @ [take r pending]) = Inr bs"
      by (auto simp: plan_batches.simps[of stat pending] split: sum.splits)
    from "1.IH"[OF False r rec] obtain new where new:
      "bs = (batches @ [take r pending]) @ new" "concat new = drop r pending"
      "\<forall>b\<in>set new. b \<noteq> [] \<and> cumulated_size stat b < BATCH_SIZE_LIMIT" "greedy stat new"
      by blast
    have pos: "0 < r" using getBatchRange_pos[OF r False] .
    have ne: "take r pending \<noteq> []" using pos False by simp
    let ?new = "take r pending # new"
    have "bs = batches @ ?new" using new(1) by simp
    moreover have "concat ?new = pending" using new(2) by simp
    moreover have "\<forall>b\<in>set ?new. b \<noteq> [] \<and> cumulated_size stat b < BATCH_SIZE_LIMIT"
      using new(3) ne getBatchRange_spec(2)[OF r] by simp
    moreover have "greedy stat ?new"
      using new(4) new(2) getBatchRange_spec(3)[OF r] by simp
    ultimately show ?thesis by blast
  qed
qed

lemma getBatchRange_loop_returns:
  "\<forall>x\<in>set pending. \<exists>s. stat x = Some s \<and> s < BATCH_SIZE_LIMIT \<Longrightarrow> (rng = 0 \<longrightarrow> tot = 0) \<Longrightarrow>
     \<exists>r. getBatchRange_loop stat pending tot rng = Inr r"
proof (induction pending arbitrary: tot rng)
  case Nil
  then show ?case by simp
next
  case (Cons item pending)
  then obtain s where s: "stat item = Some s" "s < BATCH_SIZE_LIMIT" by auto
  from Cons.prems have "\<exists>r. getBatchRange_loop stat pending (tot + s) (Suc rng) = Inr r"
    by (intro Cons.IH) auto
  with s Cons.prems(2) show ?case by (auto simp: Let_def)
qed

lemma plan_batches_returns:
  "\<forall>x\<in>set pending. \<exists>s. stat x = Some s \<and> s < BATCH_SIZE_LIMIT \<Longrightarrow>
     \<exists>bs. plan_batches stat pending acc = Inr bs"
proof (induction stat pending acc rule: plan_batches.induct)
  case (1 stat pending batches)
  show ?case
  proof (cases "pending = []")
    case True
    then show ?thesis by (simp add: plan_batches.simps)
  next
    case False
    from getBatchRange_loop_returns[OF "1.prems", of 0 0]
    obtain r where r: "getBatchRange stat pending = Inr r" by (auto simp: getBatchRange_def)
    have "\<forall>x\<in>set (drop r pending). \<exists>s. stat x = Some s \<and> s < BATCH_SIZE_LIMIT"
      using "1.prems" by (meson in_set_dropD)
    from "1.IH"[OF False r this] show ?thesis
      using False r by (simp add: plan_batches.simps[of stat pending])
  qed
qed

lemma cumulated_size_member: "x \<in> set xs \<Longrightarrow> stat x = Some s \<Longrightarrow> s \<le> cumulated_size stat xs"
  by (induction xs) (auto split: option.splits)

lemma plan_batches_oversized:
  assumes "x \<in> set pending" "stat x = Some s" "BATCH_SIZE_LIMIT \<le> s"
  shows "\<exists>e. plan_batches stat pending acc = Inl e"
proof (cases "plan_batches stat pending acc")
  case (Inl e)
  then show ?thesis by simp
next
  case (Inr bs)
  from plan_batches_spec[OF Inr] obtain new where new: "concat new = pending"
    "\<forall>b\<in>set new. b \<noteq> [] \<and> cumulated_size stat b < BATCH_SIZE_LIMIT" by blast
  from assms(1) new(1) obtain b where b: "b \<in> set new" "x \<in> set b" by auto
  from cumulated_size_member[of x b stat s] b assms(2,3) new(2) show ?thesis by fastforce
qed

lemma getBatchRange_loop_error:
  "getBatchRange_loop stat pending tot rng = Inl e \<Longrightarrow> \<forall>x\<in>set pending. stat x \<noteq> None \<Longrightarrow> e = ItemTooBig"
  by (induction pending arbitrary: tot rng) (auto simp: Let_def split: option.splits if_splits)

lemma plan_batches_error:
  "plan_batches stat pending acc = Inl e \<Longrightarrow> \<forall>x\<in>set pending. stat x \<noteq> None \<Longrightarrow> e = ItemTooBig"
proof (induction stat pending acc rule: plan_batches.induct)
  case (1 stat pending batches)
  show ?case
  proof (cases "pending = []")
    case True
    with "1.prems" show ?thesis by (simp add: plan_batches.simps)
  next
    case False
    show ?thesis
    proof (cases "getBatchRange stat pending")
      case (Inl e')
      with "1.prems" False have "e' = e" by (simp add: plan_batches.simps[of stat pending])
      with Inl "1.prems"(2) show ?thesis
        by (auto simp: getBatchRange_def dest: getBatchRange_loop_error)
    next
      case (Inr r)
      with "1.prems" False have rec: "plan_batches stat (drop r pending) (batches @ [take r pending]) = Inl e"
        by (simp add: plan_batches.simps[of stat pending])
      have "\<forall>x\<in>set (drop r pending). stat x \<noteq> None" using "1.prems"(2) by (meson in_set_dropD)
      from "1.IH"[OF False Inr rec this] show ?thesis .
    qed
  qed
qed

text \<open>
  Claim C1. With sizes 30MB, 30MB, 10MB (a megabyte being \<open>1000 * 1000\<close> bytes, as in
  the limit \<open>50 * 1000 * 1000\<close>) the planner returns the batches \<open>[[a], [b, c]]\<close>.
  In general, whenever the planner returns batches, their concatenation is the pending
  list (the order is kept and no item is dropped), every batch is non-empty and stays
  below the limit, and every batch followed by a further item meets or exceeds the limit
  with that item added. The planner does return batches whenever every pending image can
  be stat'ed and is smaller than the limit.
\<close>

theorem planner_batches:
  "(stat a = Some 30000000 \<and> stat b = Some 30000000 \<and> stat c = Some 10000000 \<longrightarrow>
      plan_batches stat [a, b, c] [] = Inr [[a], [b, c]])
   \<and> (plan_batches stat pending [] = Inr batches \<longrightarrow>
        concat batches = pending \<and>
        (\<forall>b\<in>set batches. b \<noteq> [] \<and> cumulated_size stat b < BATCH_SIZE_LIMIT) \<and>
        greedy stat batches)
   \<and> ((\<forall>x\<in>set pending. \<exists>s. stat x = Some s \<and> s < BATCH_SIZE_LIMIT) \<longrightarrow>
        (\<exists>batches. plan_batches stat pending [] = Inr batches))"
proof (intro conjI impI)
  assume "stat a = Some 30000000 \<and> stat b = Some 30000000 \<and> stat c = Some 10000000"
  then show "plan_batches stat [a, b, c] [] = Inr [[a], [b, c]]"
    by (simp add: plan_batches.simps getBatchRange_def BATCH_SIZE_LIMIT_def Let_def)
next
  assume "plan_batches stat pending [] = Inr batches"
  from plan_batches_spec[OF this]
  show "concat batches = pending" 
    "\<forall>b\<in>set batches. b \<noteq> [] \<and> cumulated_size stat b < BATCH_SIZE_LIMIT" "greedy stat batches"
    by auto
next
  assume "\<forall>x\<in>set pending. \<exists>s. stat x = Some s \<and> s < BATCH_SIZE_LIMIT"
  then show "\<exists>batches. plan_batches stat pending [] = Inr batches"
    by (rule plan_batches_returns)
qed


theorem planner_batches_witness:
  "plan_batches stat3 [''0'', ''1'', ''2''] [] = Inr [[''0''], [''1'', ''2'']]
   \<and> concat [[''0''], [''1'', ''2'']] = [''0'', ''1'', ''2'']
   \<and> cumulated_size stat3 [''0''] < BATCH_SIZE_LIMIT
   \<and> cumulated_size stat3 [''1'', ''2''] < BATCH_SIZE_LIMIT
   \<and> greedy stat3 [[''0''], [''1'', ''2'']]"
  using planner_batches [of stat3 "''0''" "''1''" "''2''" "[''0'', ''1'', ''2'']" "[[''0''], [''1'', ''2'']]"]
  by (simp add: stat3_def)

section \<open>Properties of objects\<close>

lemma obj_keys_simps [simp]:
  "obj_keys [] = []"
  "obj_keys ((k, v) # rest) = k # obj_keys rest"
  by (simp_all add: obj_keys_def)

lemma obj_get_simps [simp]:
  "obj_get [] k = None"
  "obj_get ((k', v) # rest) k = (if k = k' then Some v else obj_get rest k)"
  by (simp_all add: obj_get_def)

lemma obj_get_absent: "k \<notin> set (obj_keys obj) \<Longrightarrow> obj_get obj k = None"
  by (induction obj) auto

lemma obj_keys_replace [simp]: "obj_keys (replace_property k v obj) = obj_keys obj"
  by (induction obj) auto

lemma obj_get_replace:
  "obj_get (replace_property k v obj) k' =
     (if k' = k \<and> k \<in> set (obj_keys obj) then Some v else obj_get obj k')"
  by (induction obj) (auto simp: obj_get_absent)

lemma set_obj_keys_insert:
  "set (obj_keys (insert_property k v obj)) = insert k (set (obj_keys obj))"
  by (induction obj) (auto split: option.splits if_splits)

lemma obj_get_insert:
  "k \<notin> set (obj_keys obj) \<Longrightarrow>
     obj_get (insert_property k v obj) k' = (if k' = k then Some v else obj_get obj k')"
  by (induction obj) (auto split: option.splits)

lemma distinct_insert:
  "k \<notin> set (obj_keys obj) \<Longrightarrow> distinct (obj_keys obj) \<Longrightarrow> distinct (obj_keys (insert_property k v obj))"
  by (induction obj) (auto simp: set_obj_keys_insert split: option.splits)

lemma obj_get_set: "obj_get (obj_set obj k v) k' = (if k' = k then Some v else obj_get obj k')"
  by (simp add: obj_set_def obj_get_replace obj_get_insert)

lemma set_obj_keys_set: "set (obj_keys (obj_set obj k v)) = insert k (set (obj_keys obj))"
  by (auto simp: obj_set_def set_obj_keys_insert)

lemma obj_keys_set_present: "k \<in> set (obj_keys obj) \<Longrightarrow> obj_keys (obj_set obj k v) = obj_keys obj"
  by (simp add: obj_set_def)

lemma distinct_obj_set: "distinct (obj_keys obj) \<Longrightarrow> distinct (obj_keys (obj_set obj k v))"
  by (simp add: obj_set_def distinct_insert)

lemma obj_get_Some_key: "obj_get obj k = Some v \<Longrightarrow> k \<in> set (obj_keys obj)"
  by (induction obj) (auto split: if_splits)

lemma obj_key_get: "k \<in> set (obj_keys obj) \<Longrightarrow> \<exists>v. obj_get obj k = Some v"
  by (induction obj) auto

section \<open>Properties of the item selector\<close>

lemma foldl_set_add:
  "foldl set_add acc xs = acc @ first_seen (filter (\<lambda>x. x \<notin> set acc) xs)"
proof (induction xs arbitrary: acc)
  case Nil
  then show ?case by simp
next
  case (Cons x xs)
  have eq: "filter (\<lambda>y. y \<noteq> x) (filter (\<lambda>y. y \<notin> set acc) xs) = filter (\<lambda>y. y \<notin> set (acc @ [x])) xs"
    by (induction xs) auto
  show ?case
  proof (cases "x \<in> set acc")
    case True
    then show ?thesis using Cons.IH[of acc] by (simp add: set_add_def)
  next
    case False
    then show ?thesis using Cons.IH[of "acc @ [x]"] eq by (simp add: set_add_def)
  qed
qed

lemma new_Set_first_seen: "new_Set xs = first_seen xs"
  by (simp add: new_Set_def foldl_set_add)

lemma set_first_seen: "set (first_seen xs) = set xs"
  by (induction xs rule: first_seen.induct) auto








section \<open>Properties of the registry committer\<close>

declare chunks.simps [simp del]
declare write_slice.simps [simp del]

lemma chunks_Nil [simp]: "chunks [] n = []"
  by (simp add: chunks.simps)

lemma chunks_step: "0 < n \<Longrightarrow> xs \<noteq> [] \<Longrightarrow> chunks xs n = take n xs # chunks (drop n xs) n"
  by (subst chunks.simps) simp

lemma concat_chunks: "0 < n \<Longrightarrow> concat (chunks xs n) = xs"
  by (induction xs n rule: chunks.induct) (subst chunks.simps, simp)

lemma chunks_nonempty: "g \<in> set (chunks xs n) \<Longrightarrow> g \<noteq> []"
proof (induction xs n rule: chunks.induct)
  case (1 xs n)
  show ?case
  proof (cases "n = 0 \<or> xs = []")
    case True
    with "1.prems" show ?thesis by (simp add: chunks.simps)
  next
    case False
    with "1.prems" have "g = take n xs \<or> g \<in> set (chunks (drop n xs) n)"
      by (simp add: chunks_step)
    with False "1.IH" show ?thesis by auto
  qed
qed

lemma chunks_map: "chunks (map f xs) n = map (map f) (chunks xs n)"
proof (induction xs n rule: chunks.induct)
  case (1 xs n)
  show ?case
  proof (cases "n = 0 \<or> xs = []")
    case True
    then show ?thesis by (auto simp: chunks.simps)
  next
    case False
    with "1.IH" show ?thesis by (simp add: chunks_step take_map drop_map)
  qed
qed

lemma chunks_append:
  "0 < n \<Longrightarrow> length xs = m * n \<Longrightarrow> chunks (xs @ ys) n = chunks xs n @ chunks ys n"
proof (induction m arbitrary: xs)
  case 0
  then show ?case by simp
next
  case (Suc m)
  from Suc.prems have len: "n \<le> length xs" and ne: "xs \<noteq> []" by auto
  from Suc.prems have "length (drop n xs) = m * n" by simp
  from Suc.IH[OF Suc.prems(1) this] have IH: "chunks (drop n xs @ ys) n = chunks (drop n xs) n @ chunks ys n" .
  have "chunks (xs @ ys) n = take n xs # chunks (drop n xs @ ys) n"
    using Suc.prems(1) ne len by (simp add: chunks_step)
  also have "\<dots> = (take n xs # chunks (drop n xs) n) @ chunks ys n" using IH by simp
  also have "take n xs # chunks (drop n xs) n = chunks xs n"
    using Suc.prems(1) ne by (simp add: chunks_step)
  finally show ?case .
qed

lemma chunks_1000_10: "concat (map (\<lambda>sl. chunks sl 10) (chunks xs 1000)) = chunks xs 10"
proof (induction xs "1000::nat" rule: chunks.induct)
  case (1 xs)
  show ?case
  proof (cases "xs = []")
    case True
    then show ?thesis by simp
  next
    case False
    then have IH: "concat (map (\<lambda>sl. chunks sl 10) (chunks (drop 1000 xs) 1000)) = chunks (drop 1000 xs) 10"
      using "1.hyps" by simp
    show ?thesis
    proof (cases "1000 \<le> length xs")
      case True
      then have "length (take 1000 xs) = 100 * 10" by simp
      then have "chunks (take 1000 xs @ drop 1000 xs) 10 = chunks (take 1000 xs) 10 @ chunks (drop 1000 xs) 10"
        by (intro chunks_append) auto
      with IH False show ?thesis by (simp add: chunks_step)
    next
      case False
      with \<open>xs \<noteq> []\<close> show ?thesis by (simp add: chunks_step)
    qed
  qed
qed

lemma length_filter_neq: "(length (filter P xs) \<noteq> length xs) = (\<not> list_all P xs)"
proof (induction xs)
  case Nil
  then show ?case by simp
next
  case (Cons x xs)
  show ?case using length_filter_le[of P xs] Cons
    by (auto simp del: length_filter_le)
qed

lemma config_lines_present:
  "\<forall>i\<in>set g. keys ! i \<in> set (obj_keys its) \<Longrightarrow>
     config_lines its keys g = Some (map (\<lambda>k. (item_link its k, item_name its k)) (map ((!) keys) g))"
proof (induction g)
  case Nil
  then show ?case by simp
next
  case (Cons i g)
  then obtain e where "obj_get its (keys ! i) = Some e" using obj_key_get by fastforce
  with Cons show ?case by (simp add: item_link_def item_name_def)
qed

lemma foldl_mark_onChain:
  "foldl (mark_onChain keys) its g = mark_keys its (map ((!) keys) g)"
  by (induction g arbitrary: its) (simp_all add: mark_keys_def mark_onChain_def)

lemma write_group_keys:
  assumes "g \<noteq> []" "\<forall>i\<in>set g. keys ! i \<in> set (obj_keys its)"
  shows "write_group rpc keys g (its, calls, ok) = write_keys rpc (its, calls, ok) (map ((!) keys) g)"
proof -
  have hd: "keys ! (g ! 0) = hd (map ((!) keys) g)" using assms(1) by (cases g) auto
  have on: "list_all (\<lambda>i. item_onChain its (keys ! i)) g = group_onChain its (map ((!) keys) g)"
    by (simp add: group_onChain_def list_all_iff)
  show ?thesis
    unfolding write_group_def write_keys_def
    by (simp add: Let_def length_filter_neq on config_lines_present[OF assms(2)] hd
        group_call_def foldl_mark_onChain)
qed

lemma mark_keys_Nil [simp]: "mark_keys its [] = its"
  by (simp add: mark_keys_def)

lemma mark_keys_Cons:
  "mark_keys its (k # g) =
     mark_keys (obj_set its k (case obj_get its k of
                 None \<Rightarrow> \<lparr>link = None, name = None, onChain = True\<rparr>
               | Some e \<Rightarrow> e\<lparr>onChain := True\<rparr>)) g"
  by (simp add: mark_keys_def)

lemma obj_keys_mark_keys:
  "set g \<subseteq> set (obj_keys its) \<Longrightarrow> obj_keys (mark_keys its g) = obj_keys its"
  by (induction g arbitrary: its) (simp_all add: mark_keys_Cons obj_keys_set_present)

lemma set_obj_keys_mark_keys:
  "set (obj_keys its) \<subseteq> set (obj_keys (mark_keys its g))"
proof (induction g arbitrary: its)
  case Nil
  then show ?case by simp
next
  case (Cons a g)
  let ?its = "obj_set its a (case obj_get its a of
                 None \<Rightarrow> \<lparr>link = None, name = None, onChain = True\<rparr>
               | Some e \<Rightarrow> e\<lparr>onChain := True\<rparr>)"
  have "set (obj_keys its) \<subseteq> set (obj_keys ?its)" by (auto simp: set_obj_keys_set)
  also have "\<dots> \<subseteq> set (obj_keys (mark_keys ?its g))" by (rule Cons.IH)
  finally show ?case by (simp add: mark_keys_Cons)
qed

lemma obj_get_mark_keys:
  "set g \<subseteq> set (obj_keys its) \<Longrightarrow>
     obj_get (mark_keys its g) k =
       (if k \<in> set g then map_option (\<lambda>e. e\<lparr>onChain := True\<rparr>) (obj_get its k) else obj_get its k)"
proof (induction g arbitrary: its)
  case Nil
  then show ?case by simp
next
  case (Cons a g)
  then obtain e where e: "obj_get its a = Some e" using obj_key_get by fastforce
  let ?its = "obj_set its a (e\<lparr>onChain := True\<rparr>)"
  have "set g \<subseteq> set (obj_keys ?its)" using Cons.prems by (auto simp: set_obj_keys_set)
  from Cons.IH[OF this] e show ?case
    by (auto simp: mark_keys_Cons obj_get_set)
qed

lemma write_keys_obj_keys:
  "set g \<subseteq> set (obj_keys its) \<Longrightarrow> write_keys rpc (its, calls, ok) g = (its', calls', ok') \<Longrightarrow>
     obj_keys its' = obj_keys its"
  by (auto simp: write_keys_def obj_keys_mark_keys split: if_splits)

lemma foldl_write_group_keys:
  "\<forall>g\<in>set gs. g \<noteq> [] \<and> (\<forall>i\<in>set g. keys ! i \<in> set (obj_keys (fst st))) \<Longrightarrow>
     foldl (\<lambda>st g. write_group rpc keys g st) st gs
       = foldl (write_keys rpc) st (map (map ((!) keys)) gs)"
proof (induction gs arbitrary: st)
  case Nil
  then show ?case by simp
next
  case (Cons g gs)
  obtain its calls ok where st: "st = (its, calls, ok)" by (cases st)
  from Cons.prems st have g: "g \<noteq> []" "\<forall>i\<in>set g. keys ! i \<in> set (obj_keys its)" by auto
  have step: "write_group rpc keys g st = write_keys rpc st (map ((!) keys) g)"
    unfolding st by (rule write_group_keys[OF g])
  obtain its1 calls1 ok1 where st1: "write_keys rpc st (map ((!) keys) g) = (its1, calls1, ok1)"
    by (cases "write_keys rpc st (map ((!) keys) g)")
  have "set (map ((!) keys) g) \<subseteq> set (obj_keys its)" using g(2) by auto
  from write_keys_obj_keys[OF this st1[unfolded st]] have "obj_keys its1 = obj_keys its" .
  with Cons.prems st have "\<forall>g\<in>set gs. g \<noteq> [] \<and> (\<forall>i\<in>set g. keys ! i \<in> set (obj_keys (fst (its1, calls1, ok1))))"
    by simp
  from Cons.IH[OF this] show ?case by (simp add: step st1)
qed

lemma write_slice_foldl:
  "write_slice rpc keys slice offset st
     = foldl (\<lambda>st g. write_group rpc keys g st) st (chunks (drop offset slice) 10)"
proof (induction rpc keys slice offset st rule: write_slice.induct)
  case (1 rpc keys slice offset st)
  show ?case
  proof (cases "offset < length slice")
    case True
    then have "drop offset slice \<noteq> []" by simp
    then have "chunks (drop offset slice) 10
        = take 10 (drop offset slice) # chunks (drop (offset + 10) slice) 10"
      by (simp add: chunks_step add.commute)
    with True "1.IH" show ?thesis by (simp add: write_slice.simps[of rpc keys slice offset])
  next
    case False
    then show ?thesis by (simp add: write_slice.simps[of rpc keys slice offset])
  qed
qed

lemma foldl_foldl_concat:
  "foldl (\<lambda>st xs. foldl f st (h xs)) st xss = foldl f st (concat (map h xss))"
  by (induction xss arbitrary: st) simp_all

lemma in_set_chunks: "g \<in> set (chunks xs n) \<Longrightarrow> set g \<subseteq> set xs"
proof (induction xs n rule: chunks.induct)
  case (1 xs n)
  show ?case
  proof (cases "n = 0 \<or> xs = []")
    case True
    with "1.prems" show ?thesis by (simp add: chunks.simps)
  next
    case False
    with "1.prems" have "g = take n xs \<or> g \<in> set (chunks (drop n xs) n)"
      by (simp add: chunks_step)
    with False "1.IH" show ?thesis by (auto dest: in_set_takeD in_set_dropD)
  qed
qed

lemma commit_items_keys:
  "commit_items rpc its ok = foldl (write_keys rpc) (its, [], ok) (chunks (obj_keys its) 10)"
proof -
  let ?keys = "obj_keys its"
  let ?gs = "chunks [0..<length ?keys] 10"
  have "commit_items rpc its ok
      = foldl (\<lambda>st g. write_group rpc ?keys g st) (its, [], ok) ?gs"
    by (simp add: commit_items_def Let_def write_slice_foldl foldl_foldl_concat chunks_1000_10)
  also have "\<dots> = foldl (write_keys rpc) (its, [], ok) (map (map ((!) ?keys)) ?gs)"
  proof (rule foldl_write_group_keys, intro ballI conjI)
    fix g assume g: "g \<in> set ?gs"
    then show "g \<noteq> []" by (rule chunks_nonempty)
    fix i assume "i \<in> set g"
    with in_set_chunks[OF g] have "i < length ?keys" by auto
    then show "?keys ! i \<in> set (obj_keys (fst (its, [] :: (string \<times> config_line list) list, ok)))" by simp
  qed
  also have "map (map ((!) ?keys)) ?gs = chunks ?keys 10"
    by (simp add: chunks_map[symmetric] map_nth)
  finally show ?thesis .
qed

lemma group_agree:
  assumes "\<forall>k\<in>set g. obj_get a k = obj_get b k"
  shows "group_onChain a g = group_onChain b g"
    and "group_call a g = group_call b g"
    and "group_committed rpc a g = group_committed rpc b g"
proof -
  show 1: "group_onChain a g = group_onChain b g"
    using assms by (simp add: group_onChain_def list_all_iff item_onChain_def)
  show 2: "group_call a g = group_call b g"
    using assms by (simp add: group_call_def item_link_def item_name_def)
  show "group_committed rpc a g = group_committed rpc b g"
    by (simp add: group_committed_def 1 2)
qed

lemma write_keys_result:
  assumes "set g \<subseteq> set (obj_keys its)"
    and "write_keys rpc (its, calls, ok) g = (its1, calls1, ok1)"
  shows "obj_keys its1 = obj_keys its"
    and "calls1 = calls @ (if group_onChain its g then [] else [group_call its g])"
    and "ok1 = (ok \<and> (group_onChain its g \<or> group_committed rpc its g))"
    and "obj_get its1 k = (if k \<in> set g \<and> group_committed rpc its g
           then map_option (\<lambda>e. e\<lparr>onChain := True\<rparr>) (obj_get its k) else obj_get its k)"
  using assms
  by (auto simp: write_keys_def group_committed_def obj_keys_mark_keys obj_get_mark_keys
      split: if_splits)

lemma foldl_write_keys:
  "distinct (concat gs) \<Longrightarrow> set (concat gs) \<subseteq> set (obj_keys its) \<Longrightarrow>
   foldl (write_keys rpc) (its, calls, ok) gs = (its', calls', ok') \<Longrightarrow>
     obj_keys its' = obj_keys its \<and>
     calls' = calls @ map (group_call its) (filter (\<lambda>g. \<not> group_onChain its g) gs) \<and>
     ok' = (ok \<and> (\<forall>g\<in>set gs. group_onChain its g \<or> group_committed rpc its g)) \<and>
     (\<forall>k. obj_get its' k =
        (if \<exists>g\<in>set gs. k \<in> set g \<and> group_committed rpc its g
         then map_option (\<lambda>e. e\<lparr>onChain := True\<rparr>) (obj_get its k) else obj_get its k))"
proof (induction gs arbitrary: its calls ok)
  case Nil
  then show ?case by simp
next
  case (Cons g gs)
  obtain its1 calls1 ok1 where st1: "write_keys rpc (its, calls, ok) g = (its1, calls1, ok1)"
    by (cases "write_keys rpc (its, calls, ok) g")
  have sub: "set g \<subseteq> set (obj_keys its)" using Cons.prems(2) by simp
  note r = write_keys_result[OF sub st1]
  have disj: "\<And>g' k. g' \<in> set gs \<Longrightarrow> k \<in> set g' \<Longrightarrow> k \<notin> set g"
    using Cons.prems(1) by auto
  have agree: "\<And>g'. g' \<in> set gs \<Longrightarrow> \<forall>k\<in>set g'. obj_get its1 k = obj_get its k"
    using disj by (simp add: r(4))
  have d: "distinct (concat gs)" using Cons.prems(1) by simp
  have s: "set (concat gs) \<subseteq> set (obj_keys its1)" using Cons.prems(2) by (simp add: r(1))
  have f: "foldl (write_keys rpc) (its1, calls1, ok1) gs = (its', calls', ok')"
    using Cons.prems(3) by (simp add: st1)
  note IH = Cons.IH[OF d s f]
  have keys: "obj_keys its' = obj_keys its" using IH r(1) by simp
  have "map (group_call its1) (filter (\<lambda>g. \<not> group_onChain its1 g) gs)
      = map (group_call its) (filter (\<lambda>g. \<not> group_onChain its g) gs)"
  proof -
    have "filter (\<lambda>g. \<not> group_onChain its1 g) gs = filter (\<lambda>g. \<not> group_onChain its g) gs"
      by (rule filter_cong) (simp_all add: group_agree(1)[OF agree])
    moreover have "map (group_call its1) (filter (\<lambda>g. \<not> group_onChain its g) gs)
        = map (group_call its) (filter (\<lambda>g. \<not> group_onChain its g) gs)"
      by (rule map_cong) (simp_all add: group_agree(2)[OF agree])
    ultimately show ?thesis by simp
  qed
  then have calls: "calls' = calls @ map (group_call its) (filter (\<lambda>g. \<not> group_onChain its g) (g # gs))"
    using IH r(2) by simp
  have com: "\<And>g'. g' \<in> set gs \<Longrightarrow> group_committed rpc its1 g' = group_committed rpc its g'"
    by (rule group_agree(3)[OF agree])
  have on: "\<And>g'. g' \<in> set gs \<Longrightarrow> group_onChain its1 g' = group_onChain its g'"
    by (rule group_agree(1)[OF agree])
  have ok: "ok' = (ok \<and> (\<forall>g\<in>set (g # gs). group_onChain its g \<or> group_committed rpc its g))"
    using IH r(3) com on by auto
  have get: "obj_get its' k =
        (if \<exists>g\<in>set (g # gs). k \<in> set g \<and> group_committed rpc its g
         then map_option (\<lambda>e. e\<lparr>onChain := True\<rparr>) (obj_get its k) else obj_get its k)" for k
  proof (cases "\<exists>g'\<in>set gs. k \<in> set g' \<and> group_committed rpc its g'")
    case True
    then obtain g' where g': "g' \<in> set gs" "k \<in> set g'" "group_committed rpc its g'" by blast
    then have "\<exists>g'\<in>set gs. k \<in> set g' \<and> group_committed rpc its1 g'" using com by blast
    moreover from IH have "obj_get its' k =
        (if \<exists>g\<in>set gs. k \<in> set g \<and> group_committed rpc its1 g
         then map_option (\<lambda>e. e\<lparr>onChain := True\<rparr>) (obj_get its1 k) else obj_get its1 k)"
      by blast
    ultimately have "obj_get its' k = map_option (\<lambda>e. e\<lparr>onChain := True\<rparr>) (obj_get its1 k)"
      by (simp only: if_True)
    also have "obj_get its1 k = obj_get its k" using agree g' by blast
    finally show ?thesis using True by simp
  next
    case False
    then have "\<not> (\<exists>g'\<in>set gs. k \<in> set g' \<and> group_committed rpc its1 g')" using com by blast
    moreover from IH have "obj_get its' k =
        (if \<exists>g\<in>set gs. k \<in> set g \<and> group_committed rpc its1 g
         then map_option (\<lambda>e. e\<lparr>onChain := True\<rparr>) (obj_get its1 k) else obj_get its1 k)"
      by blast
    ultimately have "obj_get its' k = obj_get its1 k" by (simp only: if_False)
    with False show ?thesis by (auto simp: r(4))
  qed
  from keys calls ok get show ?case by blast
qed

lemma commit_items_result:
  assumes "distinct (obj_keys its)" and "commit_items rpc its ok = (its', calls', ok')"
  shows "obj_keys its' = obj_keys its"
    and "calls' = map (group_call its) (filter (\<lambda>g. \<not> group_onChain its g) (chunks (obj_keys its) 10))"
    and "ok' = (ok \<and> (\<forall>g\<in>set (chunks (obj_keys its) 10). group_onChain its g \<or> group_committed rpc its g))"
    and "obj_get its' k =
        (if \<exists>g\<in>set (chunks (obj_keys its) 10). k \<in> set g \<and> group_committed rpc its g
         then map_option (\<lambda>e. e\<lparr>onChain := True\<rparr>) (obj_get its k) else obj_get its k)"
proof -
  have c: "concat (chunks (obj_keys its) 10) = obj_keys its" by (simp add: concat_chunks)
  have "distinct (concat (chunks (obj_keys its) 10))" "set (concat (chunks (obj_keys its) 10)) \<subseteq> set (obj_keys its)"
    using assms(1) by (simp_all add: c)
  from foldl_write_keys[OF this, of rpc "[]" ok its' calls' ok'] assms(2)
  show "obj_keys its' = obj_keys its"
    and "calls' = map (group_call its) (filter (\<lambda>g. \<not> group_onChain its g) (chunks (obj_keys its) 10))"
    and "ok' = (ok \<and> (\<forall>g\<in>set (chunks (obj_keys its) 10). group_onChain its g \<or> group_committed rpc its g))"
    and "obj_get its' k =
        (if \<exists>g\<in>set (chunks (obj_keys its) 10). k \<in> set g \<and> group_committed rpc its g
         then map_option (\<lambda>e. e\<lparr>onChain := True\<rparr>) (obj_get its k) else obj_get its k)"
    by (simp_all add: commit_items_keys)
qed

lemma chunks_disjoint:
  assumes "distinct xs" "g \<in> set (chunks xs n)" "g' \<in> set (chunks xs n)" "k \<in> set g" "k \<in> set g'"
  shows "g = g'"
proof (cases "n = 0")
  case True
  with assms(2) show ?thesis by (simp add: chunks.simps)
next
  case False
  then have "distinct (concat (chunks xs n))" using assms(1) by (simp add: concat_chunks)
  then have "\<forall>ys zs. ys \<in> set (chunks xs n) \<and> zs \<in> set (chunks xs n) \<and> ys \<noteq> zs \<longrightarrow> set ys \<inter> set zs = {}"
    by (simp add: distinct_concat_iff)
  with assms(2-5) show ?thesis by blast
qed

lemma chunks_25:
  assumes "length xs = 25"
  shows "chunks xs 10 = [take 10 xs, take 10 (drop 10 xs), drop 20 xs]"
proof -
  have 1: "xs \<noteq> []" "drop 10 xs \<noteq> []" "drop 20 xs \<noteq> []" using assms by auto
  have "chunks xs 10 = take 10 xs # chunks (drop 10 xs) 10" using 1 by (simp add: chunks_step)
  also have "chunks (drop 10 xs) 10 = take 10 (drop 10 xs) # chunks (drop 20 xs) 10"
    using 1 by (simp add: chunks_step)
  also have "chunks (drop 20 xs) 10 = [drop 20 xs]"
    using 1 assms by (simp add: chunks_step)
  finally show ?thesis .
qed

lemma commit_calls_eq:
  assumes d: "distinct (obj_keys its)"
  shows "commit_calls rpc its
       = map (group_call its) (filter (\<lambda>g. \<not> group_onChain its g) (chunks (obj_keys its) 10))"
proof -
  obtain its' calls' ok' where c: "commit_items rpc its True = (its', calls', ok')"
    by (cases "commit_items rpc its True")
  from commit_items_result(2)[OF d c] c show ?thesis by (simp add: commit_calls_def)
qed

lemma registry_group_skip_aux:
  assumes d: "distinct (obj_keys its)" and g: "g \<in> set (chunks (obj_keys its) 10)"
  shows "(group_call its g \<in> set (commit_calls rpc its)) = (\<not> group_onChain its g)"
proof
  let ?gs = "chunks (obj_keys its) 10"
  assume "group_call its g \<in> set (commit_calls rpc its)"
  then obtain g' where g': "g' \<in> set ?gs" "\<not> group_onChain its g'" "group_call its g' = group_call its g"
    unfolding commit_calls_eq[OF d] by auto
  from g'(3) have "hd g' = hd g" by (simp add: group_call_def)
  moreover have "g \<noteq> []" "g' \<noteq> []" using g g'(1) by (auto dest: chunks_nonempty)
  ultimately have "hd g \<in> set g" "hd g \<in> set g'" using hd_in_set[of g] hd_in_set[of g'] by auto
  with chunks_disjoint[OF d g g'(1)] have "g = g'" by simp
  with g'(2) show "\<not> group_onChain its g" by simp
next
  assume "\<not> group_onChain its g"
  with g show "group_call its g \<in> set (commit_calls rpc its)" unfolding commit_calls_eq[OF d] by auto
qed

text \<open>
  Claim C3. With the cache keys distinct (as the keys of an object are), the commit phase
  issues one registry call for every group of ten keys that is not entirely on chain, in
  the order of the groups, and none for the others: a group's call is among the calls
  issued exactly when not every member of the group is on chain. With 25 items of which
  exactly the first ten are on chain the calls are those of the second and the third
  group, two in all, whatever the registry answers.
\<close>

theorem registry_group_skip:
  "distinct (obj_keys its) \<Longrightarrow>
     commit_calls rpc its
       = map (group_call its) (filter (\<lambda>g. \<not> group_onChain its g) (chunks (obj_keys its) 10))
     \<and> (\<forall>g\<in>set (chunks (obj_keys its) 10).
          (group_call its g \<in> set (commit_calls rpc its)) = (\<not> group_onChain its g))
     \<and> (length its = 25 \<and> (\<forall>k\<in>set (take 10 (obj_keys its)). item_onChain its k)
          \<and> (\<forall>k\<in>set (drop 10 (obj_keys its)). \<not> item_onChain its k) \<longrightarrow>
        commit_calls rpc its = [group_call its (take 10 (drop 10 (obj_keys its))),
                                group_call its (drop 20 (obj_keys its))]
        \<and> length (commit_calls rpc its) = 2)"
proof (intro conjI ballI impI)
  assume d: "distinct (obj_keys its)"
  let ?gs = "chunks (obj_keys its) 10"
  show calls: "commit_calls rpc its = map (group_call its) (filter (\<lambda>g. \<not> group_onChain its g) ?gs)"
    by (rule commit_calls_eq[OF d])
  {
    fix g assume g: "g \<in> set ?gs"
    show "(group_call its g \<in> set (commit_calls rpc its)) = (\<not> group_onChain its g)"
      by (rule registry_group_skip_aux[OF d g])
  }
  {
    assume a: "length its = 25 \<and> (\<forall>k\<in>set (take 10 (obj_keys its)). item_onChain its k)
          \<and> (\<forall>k\<in>set (drop 10 (obj_keys its)). \<not> item_onChain its k)"
    then have len: "length (obj_keys its) = 25" by (simp add: obj_keys_def)
    have g1: "group_onChain its (take 10 (obj_keys its))"
      using a by (simp add: group_onChain_def list_all_iff)
    have "hd (drop 10 (obj_keys its)) \<in> set (take 10 (drop 10 (obj_keys its)))"
      using len by (cases "drop 10 (obj_keys its)") auto
    moreover have "set (take 10 (drop 10 (obj_keys its))) \<subseteq> set (drop 10 (obj_keys its))"
      by (rule set_take_subset)
    ultimately have g2: "\<not> group_onChain its (take 10 (drop 10 (obj_keys its)))"
      using a by (auto simp: group_onChain_def list_all_iff)
    have "hd (drop 20 (obj_keys its)) \<in> set (drop 20 (obj_keys its))"
      using len by (cases "drop 20 (obj_keys its)") auto
    moreover have "set (drop 20 (obj_keys its)) \<subseteq> set (drop 10 (obj_keys its))"
      using set_drop_subset[of 10 "drop 10 (obj_keys its)"] by simp
    ultimately have g3: "\<not> group_onChain its (drop 20 (obj_keys its))"
      using a by (auto simp: group_onChain_def list_all_iff)
    show c2: "commit_calls rpc its = [group_call its (take 10 (drop 10 (obj_keys its))),
                                group_call its (drop 20 (obj_keys its))]"
      unfolding calls chunks_25[OF len] using g1 g2 g3 by simp
    show "length (commit_calls rpc its) = 2" unfolding c2 by simp
  }
qed

lemma items25_keys:
  "obj_keys items25 = [''a'', ''b'', ''c'', ''d'', ''e'', ''f'', ''g'', ''h'', ''i'', ''j'', ''k'', ''l'', ''m'',
     ''n'', ''o'', ''p'', ''q'', ''r'', ''s'', ''t'', ''u'', ''v'', ''w'', ''x'', ''y'']"
  by (simp add: items25_def enumerate_eq_zip upt_rec)

lemma items25_onChain:
  "item_onChain items25 k = (k \<in> set [''a'', ''b'', ''c'', ''d'', ''e'', ''f'', ''g'', ''h'', ''i'', ''j''])"
  by (simp add: items25_def enumerate_eq_zip upt_rec item_onChain_def)

theorem registry_group_skip_witness:
  "distinct (obj_keys items25) \<and> length items25 = 25
   \<and> commit_calls rpc_reject_k items25
       = [group_call items25 [''k'', ''l'', ''m'', ''n'', ''o'', ''p'', ''q'', ''r'', ''s'', ''t''],
          group_call items25 [''u'', ''v'', ''w'', ''x'', ''y'']]
   \<and> length (commit_calls rpc_reject_k items25) = 2"
proof -
  have d: "distinct (obj_keys items25)" by (simp add: items25_keys)
  have l: "length items25 = 25" by (simp add: items25_def)
  have a: "\<forall>k\<in>set (take 10 (obj_keys items25)). item_onChain items25 k"
    by (simp add: items25_keys items25_onChain)
  have b: "\<forall>k\<in>set (drop 10 (obj_keys items25)). \<not> item_onChain items25 k"
    by (simp add: items25_keys items25_onChain)
  from registry_group_skip [OF d, of rpc_reject_k] l a b
  have "commit_calls rpc_reject_k items25 = [group_call items25 (take 10 (drop 10 (obj_keys items25))),
                                group_call items25 (drop 20 (obj_keys items25))]
        \<and> length (commit_calls rpc_reject_k items25) = 2"
    by blast
  with d l show ?thesis by (simp add: items25_keys)
qed

text \<open>
  Claim C10. When the registry call of a group fails, every member of the group has, at
  the end of the commit phase, exactly the cache entry it had before (link, name and
  onChain flag), the key order is unchanged, the failed call is on record and the success
  flag is cleared. A commit phase run on the resulting cache issues the very same call
  again, whatever registry it talks to.
\<close>

theorem failed_group_untouched:
  "distinct (obj_keys its) \<Longrightarrow> g \<in> set (chunks (obj_keys its) 10) \<Longrightarrow>
   \<not> group_onChain its g \<Longrightarrow> \<not> rpc (fst (group_call its g)) (snd (group_call its g)) \<Longrightarrow>
   commit_items rpc its ok = (its', calls', ok') \<Longrightarrow>
     (\<forall>k\<in>set g. obj_get its' k = obj_get its k)
     \<and> obj_keys its' = obj_keys its
     \<and> group_call its g \<in> set calls'
     \<and> \<not> ok'
     \<and> (\<forall>rpc2. group_call its g \<in> set (commit_calls rpc2 its'))"
proof -
  assume d: "distinct (obj_keys its)" and g: "g \<in> set (chunks (obj_keys its) 10)"
    and off: "\<not> group_onChain its g" and fail: "\<not> rpc (fst (group_call its g)) (snd (group_call its g))"
    and c: "commit_items rpc its ok = (its', calls', ok')"
  note r = commit_items_result[OF d c]
  have nc: "\<not> group_committed rpc its g" using fail by (simp add: group_committed_def)
  have same: "\<forall>k\<in>set g. obj_get its' k = obj_get its k"
  proof
    fix k assume k: "k \<in> set g"
    have "\<not> (\<exists>g'\<in>set (chunks (obj_keys its) 10). k \<in> set g' \<and> group_committed rpc its g')"
      using chunks_disjoint[OF d g _ k] nc by blast
    then show "obj_get its' k = obj_get its k" using r(4)[of k] by (simp only: if_False)
  qed
  have keys: "obj_keys its' = obj_keys its" by (rule r(1))
  have call: "group_call its g \<in> set calls'" using g off by (simp add: r(2))
  have nok: "\<not> ok'" using g off nc by (auto simp: r(3))
  have again: "group_call its g \<in> set (commit_calls rpc2 its')" for rpc2
  proof -
    have d': "distinct (obj_keys its')" using d keys by simp
    have g': "g \<in> set (chunks (obj_keys its') 10)" using g keys by simp
    have "\<not> group_onChain its' g" using off group_agree(1)[OF same] by simp
    with registry_group_skip_aux[OF d' g'] have "group_call its' g \<in> set (commit_calls rpc2 its')"
      by simp
    then show ?thesis using group_agree(2)[OF same] by simp
  qed
  from same keys call nok again show ?thesis by blast
qed

lemma items25_get_k: "obj_get items25 ''k'' = Some \<lparr>link = Some ''https://arweave.net/k'', name = Some ''k'', onChain = False\<rparr>"
  by (simp add: items25_def enumerate_eq_zip upt_rec)

theorem failed_group_untouched_witness:
  "obj_get (fst (commit_items rpc_reject_k items25 True)) ''k''
     = Some \<lparr>link = Some ''https://arweave.net/k'', name = Some ''k'', onChain = False\<rparr>
   \<and> obj_keys (fst (commit_items rpc_reject_k items25 True)) = obj_keys items25
   \<and> \<not> snd (snd (commit_items rpc_reject_k items25 True))
   \<and> group_call items25 [''k'', ''l'', ''m'', ''n'', ''o'', ''p'', ''q'', ''r'', ''s'', ''t'']
        \<in> set (commit_calls (\<lambda>ind lines. True) (fst (commit_items rpc_reject_k items25 True)))"
proof -
  let ?g = "[''k'', ''l'', ''m'', ''n'', ''o'', ''p'', ''q'', ''r'', ''s'', ''t'']"
  let ?r = "commit_items rpc_reject_k items25 True"
  have d: "distinct (obj_keys items25)" by (simp add: items25_keys)
  have g: "?g \<in> set (chunks (obj_keys items25) 10)"
    by (simp add: chunks_25 items25_keys)
  have off: "\<not> group_onChain items25 ?g" by (simp add: group_onChain_def items25_onChain)
  have fail: "\<not> rpc_reject_k (fst (group_call items25 ?g)) (snd (group_call items25 ?g))"
    by (simp add: rpc_reject_k_def group_call_def)
  have c: "?r = (fst ?r, fst (snd ?r), snd (snd ?r))" by simp
  from failed_group_untouched [OF d g off fail c] show ?thesis
    by (simp add: items25_get_k)
qed

section \<open>Properties of the bundle path\<close>

lemma upload_bundle_planner_error:
  assumes "storage_of p = ArweaveNative"
    and "plan_batches (png_size w) (getItemsNeedingUpload (file_stem w) (items (init_cache saved)) files) [] = Inl e"
  shows "\<exists>e'. outcome (upload_bundle w p files saved) = Inl e'
            \<and> (files \<noteq> [] \<and> read_jwk w \<longrightarrow> e' = e)"
    and "trace (upload_bundle w p files saved) = []"
    and "final_cache (upload_bundle w p files saved) = init_cache saved"
proof -
  let ?pending = "getItemsNeedingUpload (file_stem w) (items (init_cache saved)) files"
  have ne: "?pending \<noteq> []" using assms(2) by (auto simp: plan_batches.simps)
  have ph: "upload_phase w p ?pending (init_cache saved)
      = (if read_jwk w then (Inl e, []) else (Inl (ReadFailed ''jwk''), []))"
    using assms by (simp add: upload_phase_def arweaveBundleUpload_def)
  show "\<exists>e'. outcome (upload_bundle w p files saved) = Inl e'
            \<and> (files \<noteq> [] \<and> read_jwk w \<longrightarrow> e' = e)"
    using ne ph by (simp add: upload_bundle_def Let_def)
  show "trace (upload_bundle w p files saved) = []"
    using ne ph by (simp add: upload_bundle_def Let_def)
  show "final_cache (upload_bundle w p files saved) = init_cache saved"
    using ne ph by (simp add: upload_bundle_def Let_def)
qed

text \<open>
  Claim C6. On the bundle path, a pending item whose image alone meets or exceeds the
  size limit makes the run end in an exception, with no event at all (no bundle is
  uploaded, nothing is written to the registry) and the cache as it was loaded. When the
  file list is not empty, the key file can be read and every pending image can be
  stat'ed, the exception is the planner's \<^verbatim>\<open>Item too big\<close>.
\<close>

theorem oversized_item_fatal:
  "storage_of p = ArweaveNative \<Longrightarrow>
   x \<in> set (getItemsNeedingUpload (file_stem w) (items (init_cache saved)) files) \<Longrightarrow>
   png_size w x = Some s \<Longrightarrow> BATCH_SIZE_LIMIT \<le> s \<Longrightarrow>
     (\<exists>e. outcome (upload_bundle w p files saved) = Inl e)
     \<and> trace (upload_bundle w p files saved) = []
     \<and> final_cache (upload_bundle w p files saved) = init_cache saved
     \<and> (files \<noteq> [] \<and> read_jwk w
          \<and> (\<forall>y\<in>set (getItemsNeedingUpload (file_stem w) (items (init_cache saved)) files).
                png_size w y \<noteq> None)
        \<longrightarrow> outcome (upload_bundle w p files saved) = Inl ItemTooBig)"
proof -
  let ?pending = "getItemsNeedingUpload (file_stem w) (items (init_cache saved)) files"
  assume st: "storage_of p = ArweaveNative" and x: "x \<in> set ?pending"
    and s: "png_size w x = Some s" "BATCH_SIZE_LIMIT \<le> s"
  from plan_batches_oversized[of x ?pending "png_size w" s "[]"] x s obtain e where e: "plan_batches (png_size w) ?pending [] = Inl e"
    by blast
  note r = upload_bundle_planner_error[OF st e]
  have "outcome (upload_bundle w p files saved) = Inl ItemTooBig"
    if "files \<noteq> [] \<and> read_jwk w \<and> (\<forall>y\<in>set ?pending. png_size w y \<noteq> None)"
  proof -
    from that plan_batches_error[of "png_size w" ?pending "[]" e] e have "e = ItemTooBig" by blast
    with r(1) that show ?thesis by auto
  qed
  with r show ?thesis by blast
qed

lemma pending_ex:
  "getItemsNeedingUpload (file_stem (world_ex\<lparr>png_size := sz\<rparr>)) (items (init_cache None))
     [''assets/0.png'', ''assets/1.png''] = [''0'', ''1'']"
  by (simp add: getItemsNeedingUpload_def file_stem_def world_ex_def init_cache_def new_Set_def
      set_add_def item_link_def truthy_def basename_ext_ex_def extname_ex_def split_slash_pop_def
      Let_def)

theorem oversized_item_fatal_witness:
  "outcome (upload_bundle (world_ex\<lparr>png_size := (\<lambda>item. if item = ''1'' then Some 60000000 else Some 1000)\<rparr>)
      (params_ex ArweaveNative) [''assets/0.png'', ''assets/1.png''] None) = Inl ItemTooBig
   \<and> trace (upload_bundle (world_ex\<lparr>png_size := (\<lambda>item. if item = ''1'' then Some 60000000 else Some 1000)\<rparr>)
      (params_ex ArweaveNative) [''assets/0.png'', ''assets/1.png''] None) = []"
proof -
  let ?sz = "\<lambda>item. if item = ''1'' then Some (60000000::nat) else Some 1000"
  let ?w = "world_ex\<lparr>png_size := ?sz\<rparr>"
  have 1: "storage_of (params_ex ArweaveNative) = ArweaveNative" by (simp add: params_ex_def)
  have 2: "''1'' \<in> set (getItemsNeedingUpload (file_stem ?w) (items (init_cache None))
     [''assets/0.png'', ''assets/1.png''])" by (simp add: pending_ex)
  have 3: "png_size ?w ''1'' = Some 60000000" by simp
  have 4: "BATCH_SIZE_LIMIT \<le> 60000000" by (simp add: BATCH_SIZE_LIMIT_def)
  have 5: "read_jwk ?w" by (simp add: world_ex_def)
  from oversized_item_fatal [OF 1 2 3 4] 5 show ?thesis by (simp add: pending_ex)
qed

section \<open>Properties of the bundle executor\<close>

lemma promise_all_Inl:
  "Inl e \<in> set rs \<Longrightarrow> \<exists>e'. promise_all rs = Inl e'"
proof (induction rs)
  case Nil
  then show ?case by simp
next
  case (Cons r rs)
  then show ?case by (cases r) (auto split: sum.splits)
qed

lemma promise_all_Inr:
  "promise_all rs = Inr xs \<Longrightarrow> rs = map Inr xs"
proof (induction rs arbitrary: xs)
  case Nil
  then show ?case by simp
next
  case (Cons r rs)
  then show ?case by (cases r) (auto split: sum.splits)
qed

lemma pending_no_link:
  "k \<in> set (getItemsNeedingUpload stm its files) \<Longrightarrow> \<not> truthy (item_link its k)"
  by (simp add: getItemsNeedingUpload_def)

lemma upload_bundle_batch_error:
  assumes st: "storage_of p = ArweaveNative"
    and pl: "plan_batches (png_size w) (getItemsNeedingUpload (file_stem w) (items (init_cache saved)) files) [] = Inr batches"
    and b: "b \<in> set batches" and f: "fst (upload_batch w b) = Inl e"
  shows "\<exists>e'. outcome (upload_bundle w p files saved) = Inl e'"
    and "final_cache (upload_bundle w p files saved) = init_cache saved"
    and "files \<noteq> [] \<and> read_jwk w \<longrightarrow> set (snd (upload_batch w b)) \<subseteq> set (trace (upload_bundle w p files saved))"
proof -
  let ?pending = "getItemsNeedingUpload (file_stem w) (items (init_cache saved)) files"
  have ne: "?pending \<noteq> []" using pl b by (auto simp: plan_batches.simps)
  have "Inl e \<in> set (map fst (map (upload_batch w) batches))" using b f by force
  from promise_all_Inl[OF this] obtain e' where
    e': "promise_all (map fst (map (upload_batch w) batches)) = Inl e'" by blast
  have abu: "arweaveBundleUpload w ?pending = (Inl e', concat (map snd (map (upload_batch w) batches)))"
    using e' by (simp add: arweaveBundleUpload_def pl Let_def)
  have ph: "upload_phase w p ?pending (init_cache saved)
      = (if read_jwk w then (Inl e', concat (map snd (map (upload_batch w) batches)))
         else (Inl (ReadFailed ''jwk''), []))"
    using st by (simp add: upload_phase_def abu)
  show "\<exists>e'. outcome (upload_bundle w p files saved) = Inl e'"
    using ne ph by (simp add: upload_bundle_def Let_def)
  show "final_cache (upload_bundle w p files saved) = init_cache saved"
    using ne ph by (simp add: upload_bundle_def Let_def)
  show "files \<noteq> [] \<and> read_jwk w \<longrightarrow> set (snd (upload_batch w b)) \<subseteq> set (trace (upload_bundle w p files saved))"
    using ne ph b by (auto simp: upload_bundle_def Let_def)
qed

text \<open>
  Claim C2. On the bundle path, let the planner have returned the batches and let the
  manifest bundle of one of them fail after its image bundle went through. Then the run
  ends in an exception, the cache is the one that was loaded, and no item of that batch
  has a link in it; when the file list is not empty and the key file can be read, both
  uploads of the batch are among the events of the run. Moreover an index that had no
  link and has one after the run is only possible when both bundles of every batch
  succeeded.
\<close>

theorem bundle_all_or_nothing:
  "storage_of p = ArweaveNative \<Longrightarrow>
   plan_batches (png_size w) (getItemsNeedingUpload (file_stem w) (items (init_cache saved)) files) []
     = Inr batches \<Longrightarrow>
     (\<forall>b imgs imageLinks ms.
        b \<in> set batches \<and> getImageDataItems w b = Inr imgs
        \<and> uploadBatchBundle w imgs = Some imageLinks
        \<and> getUpdatedManifests w b imageLinks = Inr ms
        \<and> uploadBatchBundle w (getManifestDataItems w ms) = None \<longrightarrow>
          (\<exists>e. outcome (upload_bundle w p files saved) = Inl e)
          \<and> final_cache (upload_bundle w p files saved) = init_cache saved
          \<and> (\<forall>k\<in>set b. \<not> truthy (item_link (items (final_cache (upload_bundle w p files saved))) k))
          \<and> (files \<noteq> [] \<and> read_jwk w \<longrightarrow>
               UploadBundle imgs True \<in> set (trace (upload_bundle w p files saved))
               \<and> UploadBundle (getManifestDataItems w ms) False
                   \<in> set (trace (upload_bundle w p files saved))))
     \<and> (\<forall>k. \<not> truthy (item_link (items (init_cache saved)) k)
             \<and> truthy (item_link (items (final_cache (upload_bundle w p files saved))) k) \<longrightarrow>
           (\<forall>b\<in>set batches. \<exists>res. fst (upload_batch w b) = Inr res))"
proof (intro conjI allI impI ballI)
  let ?pending = "getItemsNeedingUpload (file_stem w) (items (init_cache saved)) files"
  let ?R = "upload_bundle w p files saved"
  assume st: "storage_of p = ArweaveNative"
    and pl: "plan_batches (png_size w) ?pending [] = Inr batches"
  {
    fix b imgs imageLinks ms
    assume a: "b \<in> set batches \<and> getImageDataItems w b = Inr imgs
        \<and> uploadBatchBundle w imgs = Some imageLinks
        \<and> getUpdatedManifests w b imageLinks = Inr ms
        \<and> uploadBatchBundle w (getManifestDataItems w ms) = None"
    then have ub: "upload_batch w b = (Inl BundleUploadFailed,
        [UploadBundle imgs True, UploadBundle (getManifestDataItems w ms) False])"
      by (simp add: upload_batch_def Let_def)
    then have f: "fst (upload_batch w b) = Inl BundleUploadFailed" by simp
    from a have b: "b \<in> set batches" by simp
    note r = upload_bundle_batch_error[OF st pl b f]
    show "\<exists>e. outcome ?R = Inl e" by (rule r(1))
    show fc: "final_cache ?R = init_cache saved" by (rule r(2))
    {
      fix k assume "k \<in> set b"
      with b have "k \<in> set (concat batches)" by auto
      also have "concat batches = ?pending" using plan_batches_spec[OF pl] by auto
      finally show "\<not> truthy (item_link (items (final_cache ?R)) k)"
        unfolding fc by (rule pending_no_link)
    }
    {
      assume "files \<noteq> [] \<and> read_jwk w"
      with r(3) ub show "UploadBundle imgs True \<in> set (trace ?R)"
        and "UploadBundle (getManifestDataItems w ms) False \<in> set (trace ?R)" by auto
    }
  }
  {
    fix k b
    assume k: "\<not> truthy (item_link (items (init_cache saved)) k)
             \<and> truthy (item_link (items (final_cache ?R)) k)" and b: "b \<in> set batches"
    show "\<exists>res. fst (upload_batch w b) = Inr res"
    proof (cases "fst (upload_batch w b)")
      case (Inl e)
      from upload_bundle_batch_error(2)[OF st pl b Inl] k show ?thesis by simp
    next
      case (Inr res)
      then show ?thesis by blast
    qed
  }
qed

theorem bundle_all_or_nothing_witness:
  "outcome (upload_bundle (world_ex\<lparr>post_bundle := images_only\<rparr>) (params_ex ArweaveNative)
              [''assets/0.png'', ''assets/1.png''] None) = Inl BundleUploadFailed
   \<and> final_cache (upload_bundle (world_ex\<lparr>post_bundle := images_only\<rparr>) (params_ex ArweaveNative)
              [''assets/0.png'', ''assets/1.png''] None) = init_cache None
   \<and> item_link (items (final_cache (upload_bundle (world_ex\<lparr>post_bundle := images_only\<rparr>)
              (params_ex ArweaveNative) [''assets/0.png'', ''assets/1.png''] None))) ''1'' = None
   \<and> length (trace (upload_bundle (world_ex\<lparr>post_bundle := images_only\<rparr>) (params_ex ArweaveNative)
              [''assets/0.png'', ''assets/1.png''] None)) = 2"
proof -
  let ?w = "world_ex\<lparr>post_bundle := images_only\<rparr>"
  let ?files = "[''assets/0.png'', ''assets/1.png'']"
  let ?R = "upload_bundle ?w (params_ex ArweaveNative) ?files None"
  let ?b = "[''0'', ''1'']"
  let ?tags = "baseTags @ [(''Content-Type'', ''image/png'')]"
  let ?imgs = "[\<lparr>di_data = ''png of 0'', di_tags = ?tags\<rparr>, \<lparr>di_data = ''png of 1'', di_tags = ?tags\<rparr>]"
  let ?links = "[''https://arweave.net/png of 0'', ''https://arweave.net/png of 1'']"
  let ?ms = "[(manifest_ex ''0'')\<lparr>m_image := Some ''https://arweave.net/png of 0'',
                 m_properties := Some \<lparr>p_creators = [(''creator'', 100)],
                    p_files = [(Some ''https://arweave.net/png of 0'', ''image/png'')]\<rparr>\<rparr>,
              (manifest_ex ''1'')\<lparr>m_image := Some ''https://arweave.net/png of 1'',
                 m_properties := Some \<lparr>p_creators = [(''creator'', 100)],
                    p_files = [(Some ''https://arweave.net/png of 1'', ''image/png'')]\<rparr>\<rparr>]"
  have st: "storage_of (params_ex ArweaveNative) = ArweaveNative" by (simp add: params_ex_def)
  have pe: "getItemsNeedingUpload (file_stem ?w) (items (init_cache None)) ?files = ?b"
    by (simp add: getItemsNeedingUpload_def file_stem_def world_ex_def init_cache_def new_Set_def
        set_add_def item_link_def truthy_def basename_ext_ex_def extname_ex_def split_slash_pop_def
        Let_def)
  have pl: "plan_batches (png_size ?w) (getItemsNeedingUpload (file_stem ?w) (items (init_cache None)) ?files) []
      = Inr [?b]"
    unfolding pe
    by (simp add: plan_batches.simps getBatchRange_def BATCH_SIZE_LIMIT_def Let_def world_ex_def)
  have 1: "getImageDataItems ?w ?b = Inr ?imgs" by (simp add: world_ex_def)
  have 2: "uploadBatchBundle ?w ?imgs = Some ?links"
    by (simp add: uploadBatchBundle_def world_ex_def images_only_def upt_rec)
  have 3: "getUpdatedManifests ?w ?b ?links = Inr ?ms"
    by (simp add: getUpdatedManifests_def world_ex_def manifest_ex_def js_nth_def)
  have 4: "uploadBatchBundle ?w (getManifestDataItems ?w ?ms) = None"
    by (simp add: uploadBatchBundle_def getManifestDataItems_def world_ex_def images_only_def baseTags_def)
  have 5: "?files \<noteq> [] \<and> read_jwk ?w" by (simp add: world_ex_def)
  from bundle_all_or_nothing [OF st pl] 1 2 3 4 5
  have r: "(\<exists>e. outcome ?R = Inl e) \<and> final_cache ?R = init_cache None
      \<and> (\<forall>k\<in>set ?b. \<not> truthy (item_link (items (final_cache ?R)) k))"
    by (meson list.set_intros(1))
  have o: "outcome ?R = Inl BundleUploadFailed" and t: "length (trace ?R) = 2"
    using pe pl 1 2 3 4
    by (simp_all add: upload_bundle_def upload_phase_def arweaveBundleUpload_def upload_batch_def
        Let_def params_ex_def world_ex_def)
  from r o t show ?thesis by (simp add: init_cache_def item_link_def)
qed

section \<open>Idempotent resume\<close>

declare upload_windows.simps [simp del]

lemma foldl_write_keys_onChain:
  "\<forall>g\<in>set gs. group_onChain its g \<Longrightarrow> foldl (write_keys rpc) (its, calls, ok) gs = (its, calls, ok)"
  by (induction gs) (simp_all add: write_keys_def)

lemma commit_all_onChain:
  assumes "\<forall>k\<in>set (obj_keys its). item_onChain its k"
  shows "commit_items rpc its ok = (its, [], ok)"
proof -
  have "\<forall>g\<in>set (chunks (obj_keys its) 10). group_onChain its g"
    using assms in_set_chunks by (fastforce simp: group_onChain_def list_all_iff)
  then show ?thesis by (simp add: commit_items_keys foldl_write_keys_onChain)
qed

lemma writeIndices_all_onChain:
  "\<forall>k\<in>set (obj_keys (items c)). item_onChain (items c) k \<Longrightarrow> writeIndices w c = (c, [])"
  by (simp add: writeIndices_def commit_all_onChain)

lemma nothing_pending:
  assumes "\<forall>k\<in>set (obj_keys its). truthy (item_link its k)"
    and "\<forall>f\<in>set files. stm f \<in> set (obj_keys its)"
  shows "getItemsNeedingUpload stm its files = []"
proof -
  have "set (new_Set (obj_keys its @ map stm files)) \<subseteq> set (obj_keys its)"
    using assms(2) by (auto simp: new_Set_first_seen set_first_seen)
  with assms(1) show ?thesis
    by (auto simp: getItemsNeedingUpload_def filter_empty_conv)
qed

lemma upload_bundle_resume:
  assumes "\<forall>k\<in>set (obj_keys (items (init_cache saved))).
             truthy (item_link (items (init_cache saved)) k) \<and> item_onChain (items (init_cache saved)) k"
    and "\<forall>f\<in>set files. file_stem w f \<in> set (obj_keys (items (init_cache saved)))"
  shows "filter is_upload (trace (upload_bundle w p files saved)) = []"
    and "filter is_registry_write (trace (upload_bundle w p files saved)) = []"
    and "items (final_cache (upload_bundle w p files saved)) = items (init_cache saved)"
proof -
  let ?c0 = "init_cache saved"
  have np: "getItemsNeedingUpload (file_stem w) (items ?c0) files = []"
    using assms by (intro nothing_pending) auto
  have wi: "writeIndices w c = (c, [])" if "items c = items ?c0" for c
    using assms(1) that by (intro writeIndices_all_onChain) simp
  have wi0: "writeIndices w ?c0 = (?c0, [])" by (rule wi) simp
  have wi1: "writeIndices w (?c0\<lparr>program := pr\<rparr>) = (?c0\<lparr>program := pr\<rparr>, [])" for pr
    by (rule wi) simp
  show "filter is_upload (trace (upload_bundle w p files saved)) = []"
    by (simp add: upload_bundle_def Let_def np initConfig_def wi0 wi1 split: option.splits)
  show "filter is_registry_write (trace (upload_bundle w p files saved)) = []"
    by (simp add: upload_bundle_def Let_def np initConfig_def wi0 wi1 split: option.splits)
  show "items (final_cache (upload_bundle w p files saved)) = items (init_cache saved)"
    by (simp add: upload_bundle_def Let_def np initConfig_def wi0 wi1 split: option.splits)
qed

lemma upload_one_item_linked:
  assumes "truthy (item_link (items snap) (image_index w img))"
  shows "filter is_upload (item_events (upload_one_item w p pk img i snap)) = []"
    and "filter is_registry_write (item_events (upload_one_item w p pk img i snap)) = []"
    and "items (writes (upload_one_item w p pk img i snap) c) = items c"
  using assms
  by (simp_all add: upload_one_item_def Let_def image_index_def set_program_def
      split: option.splits)

lemma upload_one_item_linked_resolved:
  assumes "truthy (item_link (items snap) (image_index w img))"
  shows "resolved (upload_one_item w p pk img i snap) \<noteq> Inr False"
  using assms
  by (simp add: upload_one_item_def Let_def image_index_def split: option.splits)

lemma foldl_writes_items:
  "\<forall>eff\<in>set effs. \<forall>c. items (writes eff c) = items c \<Longrightarrow>
     items (foldl (\<lambda>c eff. writes eff c) c effs) = items c"
  by (induction effs arbitrary: c) simp_all

lemma filter_concat_empty:
  "\<forall>xs\<in>set xss. filter P xs = [] \<Longrightarrow> filter P (concat xss) = []"
  by (induction xss) simp_all

lemma promise_all_flags:
  "promise_all rs = Inr flags \<Longrightarrow> \<forall>r\<in>set rs. r \<noteq> Inr False \<Longrightarrow> list_all (\<lambda>x. x) flags"
proof (induction rs arbitrary: flags)
  case Nil
  then show ?case by simp
next
  case (Cons r rs)
  then show ?case by (cases r) (auto split: sum.splits)
qed

lemma upload_windows_resume:
  "\<forall>img\<in>set images. truthy (item_link (items (fst st)) (image_index w img)) \<Longrightarrow>
     (case upload_windows w p pk images cur st of
        Inl (e, c', tr') \<Rightarrow>
          items c' = items (fst st) \<and> filter is_upload tr' = filter is_upload (snd (snd st))
          \<and> filter is_registry_write tr' = filter is_registry_write (snd (snd st))
      | Inr (c', ok', tr') \<Rightarrow>
          items c' = items (fst st) \<and> filter is_upload tr' = filter is_upload (snd (snd st))
          \<and> filter is_registry_write tr' = filter is_registry_write (snd (snd st))
          \<and> ok' = fst (snd st))"
proof (induction w p pk images cur st rule: upload_windows.induct)
  case (1 w p pk images cur st)
  obtain c ok tr where st: "st = (c, ok, tr)" by (cases st)
  show ?case
  proof (cases "cur < length images")
    case False
    then show ?thesis by (simp add: st upload_windows.simps[of w p pk images cur])
  next
    case True
    show ?thesis
    proof (cases "BATCH_SIZE (storage_of p)")
      case None
      with True show ?thesis by (simp add: st upload_windows.simps[of w p pk images cur])
    next
      case (Some b)
      let ?promises = "map (\<lambda>i. upload_one_item w p pk (images ! i) i c)
                         [cur..<min (cur + b) (length images)]"
      let ?tr = "tr @ concat (map item_events ?promises)"
      have linked: "truthy (item_link (items c) (image_index w (images ! i)))"
        if "i < length images" for i
        using "1.prems" that by (simp add: st)
      have effs: "\<forall>eff\<in>set ?promises. (\<forall>c. items (writes eff c) = items c)
          \<and> filter is_upload (item_events eff) = []
          \<and> filter is_registry_write (item_events eff) = []
          \<and> resolved eff \<noteq> Inr False"
        using linked
        by (auto simp: upload_one_item_linked upload_one_item_linked_resolved)
      have tru: "filter is_upload ?tr = filter is_upload tr"
        using effs by (simp add: filter_concat_empty)
      have trw: "filter is_registry_write ?tr = filter is_registry_write tr"
        using effs by (simp add: filter_concat_empty)
      show ?thesis
      proof (cases "promise_all (map resolved ?promises)")
        case (Inl e)
        with True Some tru trw show ?thesis
          by (simp add: st upload_windows.simps[of w p pk images cur] Let_def)
      next
        case (Inr flags)
        let ?c = "foldl (\<lambda>c eff. writes eff c) c ?promises"
        let ?st = "(?c, list_all (\<lambda>x. x) flags \<and> ok, ?tr)"
        have its: "items ?c = items c" using effs by (intro foldl_writes_items) blast
        have "\<forall>r\<in>set (map resolved ?promises). r \<noteq> Inr False" using effs by simp
        from promise_all_flags[OF Inr this] have fl: "list_all (\<lambda>x. x) flags" .
        have un: "upload_windows w p pk images cur st = upload_windows w p pk images (cur + b) ?st"
          using True Some Inr by (simp add: st upload_windows.simps[of w p pk images cur] Let_def)
        have "\<forall>img\<in>set images. truthy (item_link (items (fst ?st)) (image_index w img))"
          using "1.prems" its by (simp add: st)
        from "1.IH"[OF st[symmetric] refl True Some refl refl Inr this]
        show ?thesis unfolding un using its tru trw fl
          by (auto simp: st split: sum.splits)
      qed
    qed
  qed
qed

lemma upload_resume:
  assumes on: "\<forall>k\<in>set (obj_keys (items (init_cache saved))).
             truthy (item_link (items (init_cache saved)) k) \<and> item_onChain (items (init_cache saved)) k"
    and im: "\<forall>img\<in>set (images_of w files (existing_keys saved)).
             image_index w img \<in> set (obj_keys (items (init_cache saved)))"
  shows "filter is_upload (trace (upload w p files saved)) = []"
    and "filter is_registry_write (trace (upload w p files saved)) = []"
    and "items (final_cache (upload w p files saved)) = items (init_cache saved)"
    and "outcome (upload w p files saved) = Inr flag \<longrightarrow> flag"
proof -
  let ?c0 = "init_cache saved"
  let ?images = "images_of w files (existing_keys saved)"
  have linked: "\<forall>img\<in>set ?images. truthy (item_link (items (fst (?c0, True, [] :: event list))) (image_index w img))"
    using on im by simp
  have all: "filter is_upload (trace (upload w p files saved)) = []
    \<and> filter is_registry_write (trace (upload w p files saved)) = []
    \<and> items (final_cache (upload w p files saved)) = items (init_cache saved)
    \<and> (outcome (upload w p files saved) = Inr flag \<longrightarrow> flag)"
  proof (cases "load_wallet w")
    case None
    then show ?thesis by (simp add: upload_def Let_def)
  next
    case (Some pk)
    show ?thesis
    proof (cases "upload_windows w p pk ?images 0 (?c0, True, [])")
      case (Inl x)
      obtain e c tr where x: "x = (e, c, tr)" by (cases x)
      from upload_windows_resume[OF linked, of p pk 0] Inl x
      show ?thesis using Some by (simp add: upload_def Let_def)
    next
      case (Inr x)
      obtain c ok tr where x: "x = (c, ok, tr)" by (cases x)
      from upload_windows_resume[OF linked, of p pk 0] Inr x
      have r: "items c = items ?c0" "filter is_upload tr = []" "filter is_registry_write tr = []" "ok"
        by simp_all
      have "commit_items (addConfigLines w) (items c) ok = (items c, [], ok)"
        using on r(1) by (intro commit_all_onChain) simp
      with r Inr x Some show ?thesis by (simp add: upload_def Let_def)
    qed
  qed
  from all show "filter is_upload (trace (upload w p files saved)) = []"
    and "filter is_registry_write (trace (upload w p files saved)) = []"
    and "items (final_cache (upload w p files saved)) = items (init_cache saved)"
    and "outcome (upload w p files saved) = Inr flag \<longrightarrow> flag"
    by blast+
qed

text \<open>
  Claim C7. Let every item of the loaded cache have a link and be on chain. A run of the
  entry point of part\_000 on files whose stems are all cache keys, and a run of the entry
  point of commands/upload.ts on files whose images are all filed under cache keys,
  makes no upload and no registry write, and leaves the cache items as they were; the
  latter, when it returns, returns \<open>True\<close>.
\<close>

theorem idempotent_resume:
  "\<forall>k\<in>set (obj_keys (items (init_cache saved))).
      truthy (item_link (items (init_cache saved)) k) \<and> item_onChain (items (init_cache saved)) k \<Longrightarrow>
     ((\<forall>f\<in>set files. file_stem w f \<in> set (obj_keys (items (init_cache saved)))) \<longrightarrow>
        filter is_upload (trace (upload_bundle w p files saved)) = []
        \<and> filter is_registry_write (trace (upload_bundle w p files saved)) = []
        \<and> items (final_cache (upload_bundle w p files saved)) = items (init_cache saved))
     \<and> ((\<forall>img\<in>set (images_of w files (existing_keys saved)).
            image_index w img \<in> set (obj_keys (items (init_cache saved)))) \<longrightarrow>
        filter is_upload (trace (upload w p files saved)) = []
        \<and> filter is_registry_write (trace (upload w p files saved)) = []
        \<and> items (final_cache (upload w p files saved)) = items (init_cache saved)
        \<and> (\<forall>flag. outcome (upload w p files saved) = Inr flag \<longrightarrow> flag))"
  using upload_bundle_resume[of saved files w p] upload_resume[of saved w files p]
  by blast

lemma saved_done_items:
  "items (init_cache (Some saved_done)) =
        [(''0'', \<lparr>link = Some ''https://arweave.net/m0'', name = Some ''zero'', onChain = True\<rparr>),
         (''1'', \<lparr>link = Some ''https://arweave.net/m1'', name = Some ''one'', onChain = True\<rparr>)]"
  by (simp add: init_cache_def saved_done_def)

theorem idempotent_resume_witness:
  "filter is_upload (trace (upload_bundle world_ex (params_ex ArweaveNative)
      [''assets/0.png'', ''assets/1.png''] (Some saved_done))) = []
   \<and> filter is_registry_write (trace (upload_bundle world_ex (params_ex ArweaveNative)
      [''assets/0.png'', ''assets/1.png''] (Some saved_done))) = []
   \<and> filter is_upload (trace (upload world_ex (params_ex Arweave)
      [''assets/0.png'', ''assets/1.png''] (Some saved_done))) = []
   \<and> filter is_registry_write (trace (upload world_ex (params_ex Arweave)
      [''assets/0.png'', ''assets/1.png''] (Some saved_done))) = []"
proof -
  let ?files = "[''assets/0.png'', ''assets/1.png'']"
  have a: "\<forall>k\<in>set (obj_keys (items (init_cache (Some saved_done)))).
      truthy (item_link (items (init_cache (Some saved_done))) k)
      \<and> item_onChain (items (init_cache (Some saved_done))) k"
    by (simp add: saved_done_items item_link_def item_onChain_def truthy_def)
  have b: "\<forall>f\<in>set ?files. file_stem world_ex f \<in> set (obj_keys (items (init_cache (Some saved_done))))"
    by (simp add: saved_done_items file_stem_def world_ex_def basename_ext_ex_def extname_ex_def
        split_slash_pop_def Let_def)
  have i: "images_of world_ex ?files (existing_keys (Some saved_done)) = ?files"
    by (simp add: images_of_def existing_keys_def saved_done_def scan_file_def scan_cached_def
        seen_truthy_def Object_prototype_keys_def EXTENSION_PNG_def split_slash_pop_def
        world_ex_def extname_ex_def Let_def)
  have c: "\<forall>img\<in>set (images_of world_ex ?files (existing_keys (Some saved_done))).
      image_index world_ex img \<in> set (obj_keys (items (init_cache (Some saved_done))))"
    unfolding i
    by (simp add: saved_done_items image_index_def world_ex_def EXTENSION_PNG_def split_slash_pop_def)
  from idempotent_resume [OF a, of ?files world_ex "params_ex ArweaveNative"]
    idempotent_resume [OF a, of ?files world_ex "params_ex Arweave"] b c
  show ?thesis by blast
qed

section \<open>Properties of the count-bounded upload loop\<close>

lemma item_link_set:
  "item_link (obj_set its k e) k' = (if k' = k then link e else item_link its k')"
  by (simp add: item_link_def obj_get_set)

lemma items_set_program [simp]: "items (set_program u cfg c) = items c"
  by (simp add: set_program_def)

lemma upload_link_cases:
  obtains
    (skip) "\<not> known_storage (storage_of p)"
      "upload_link w p pk img index m wr ev = \<lparr>resolved = Inr True, writes = wr, item_events = ev\<rparr>"
  | (threw) "known_storage (storage_of p)" "upload_file w (storage_of p) img m = Threw"
      "upload_link w p pk img index m wr ev
         = \<lparr>resolved = Inr False, writes = wr, item_events = ev @ [Upload img False]\<rparr>"
  | (linked) l where "known_storage (storage_of p)" "upload_file w (storage_of p) img m = Returned l"
      "truthy l"
      "upload_link w p pk img index m wr ev
         = \<lparr>resolved = Inr True,
            writes = set_item index \<lparr>link = l, name = m_name m, onChain = False\<rparr> pk \<circ> wr,
            item_events = ev @ [Upload img True]\<rparr>"
  | (falsy) l where "known_storage (storage_of p)" "upload_file w (storage_of p) img m = Returned l"
      "\<not> truthy l"
      "upload_link w p pk img index m wr ev
         = \<lparr>resolved = Inr True, writes = wr, item_events = ev @ [Upload img True]\<rparr>"
proof (cases "known_storage (storage_of p)")
  case False
  then show ?thesis using skip by (simp add: upload_link_def known_storage_def)
next
  case True
  show ?thesis
  proof (cases "upload_file w (storage_of p) img m")
    case Threw
    with True show ?thesis using threw by (simp add: upload_link_def known_storage_def)
  next
    case (Returned l)
    with True show ?thesis using linked[of l] falsy[of l]
      by (cases "truthy l") (simp_all add: upload_link_def known_storage_def)
  qed
qed

text \<open>
  The branches of upload_one_item: it does nothing, it rejects, or it is an upload_link
  after an optional registry initialisation.
\<close>

lemma upload_one_item_cases:
  obtains
    (idle) "upload_one_item w p pk img i snap = \<lparr>resolved = Inr True, writes = id, item_events = []\<rparr>"
      "truthy (item_link (items snap) (image_index w img))"
  | (unreadable) f where
      "upload_one_item w p pk img i snap = \<lparr>resolved = Inl (ReadFailed f), writes = id, item_events = []\<rparr>"
      "read_manifest w (js_replace EXTENSION_PNG ''.json'' img) (path_basename w img) = None"
  | (init_failed) m where
      "upload_one_item w p pk img i snap
         = \<lparr>resolved = Inl CreateConfigFailed, writes = id, item_events = [CreateConfig False]\<rparr>"
      "createConfig w (totalNFTs p) (mutable p) (retainAuthority p) m = None"
  | (init_only) u cfg where
      "upload_one_item w p pk img i snap
         = \<lparr>resolved = Inr True, writes = set_program u cfg, item_events = [CreateConfig True]\<rparr>"
      "truthy (item_link (items snap) (image_index w img))"
  | (init_upload) m u cfg where
      "read_manifest w (js_replace EXTENSION_PNG ''.json'' img) (path_basename w img) = Some m"
      "\<not> truthy (item_link (items snap) (image_index w img))"
      "upload_one_item w p pk img i snap
         = upload_link w p pk img (image_index w img) m (set_program u cfg) [CreateConfig True]"
  | (upload) m where
      "read_manifest w (js_replace EXTENSION_PNG ''.json'' img) (path_basename w img) = Some m"
      "\<not> truthy (item_link (items snap) (image_index w img))"
      "upload_one_item w p pk img i snap = upload_link w p pk img (image_index w img) m id []"
proof -
  let ?link0 = "item_link (items snap) (image_index w img)"
  let ?nouuid = "\<not> truthy (uuid (program snap))"
  show ?thesis
  proof (cases "\<not> truthy ?link0 \<or> ?nouuid")
    case False
    then show ?thesis using idle by (simp add: upload_one_item_def Let_def image_index_def)
  next
    case enter: True
    show ?thesis
    proof (cases "read_manifest w (js_replace EXTENSION_PNG ''.json'' img) (path_basename w img)")
      case None
      with enter show ?thesis using unreadable
        by (simp add: upload_one_item_def Let_def image_index_def)
    next
      case (Some m)
      show ?thesis
      proof (cases "i = 0 \<and> ?nouuid")
        case init: True
        show ?thesis
        proof (cases "createConfig w (totalNFTs p) (mutable p) (retainAuthority p) m")
          case None
          with enter Some init show ?thesis using init_failed[of m]
            by (simp add: upload_one_item_def Let_def image_index_def)
        next
          case cc: (Some uc)
          obtain u cfg where uc: "uc = (u, cfg)" by (cases uc)
          show ?thesis
          proof (cases "truthy ?link0")
            case True
            with enter Some init cc uc show ?thesis using init_only[of u cfg]
              by (simp add: upload_one_item_def Let_def image_index_def)
          next
            case False
            with enter Some init cc uc show ?thesis using init_upload[of m u cfg]
              by (simp add: upload_one_item_def Let_def image_index_def)
          qed
        qed
      next
        case noinit: False
        show ?thesis
        proof (cases "truthy ?link0")
          case True
          with enter Some noinit show ?thesis using idle
            by (auto simp: upload_one_item_def Let_def image_index_def)
        next
          case False
          with enter Some noinit show ?thesis using upload[of m]
            by (auto simp: upload_one_item_def Let_def image_index_def)
        qed
      qed
    qed
  qed
qed

lemma benign_upload_link:
  assumes "\<forall>c. items (wr c) = items c"
  shows "benign (writes (upload_link w p pk img index m wr ev))"
proof (cases rule: upload_link_cases[where p=p and w=w and img=img and m=m and pk=pk
      and index=index and wr=wr and ev=ev])
  case skip
  with assms show ?thesis by (simp add: benign_def)
next
  case threw
  with assms show ?thesis by (simp add: benign_def)
next
  case (linked l)
  have "items ((set_item index \<lparr>link = l, name = m_name m, onChain = False\<rparr> pk \<circ> wr) c)
      = obj_set (items c) index \<lparr>link = l, name = m_name m, onChain = False\<rparr>" for c
    using assms by (simp add: set_item_def)
  with linked(3) show ?thesis unfolding benign_def linked(4) by auto
next
  case (falsy l)
  with assms show ?thesis by (simp add: benign_def)
qed

lemma benign_upload_one_item: "benign (writes (upload_one_item w p pk img i snap))"
proof (cases rule: upload_one_item_cases[of w p pk img i snap])
  case idle
  then show ?thesis by (simp add: benign_def)
next
  case (unreadable f)
  then show ?thesis by (simp add: benign_def)
next
  case (init_failed m)
  then show ?thesis by (simp add: benign_def)
next
  case (init_only u cfg)
  then show ?thesis by (simp add: benign_def)
next
  case (init_upload m u cfg)
  then show ?thesis by (simp add: benign_upload_link)
next
  case (upload m)
  then show ?thesis by (simp add: benign_upload_link)
qed

lemma list_all_replace:
  "list_all P obj \<Longrightarrow> P (k, v) \<Longrightarrow> list_all P (replace_property k v obj)"
  by (induction obj) auto

lemma list_all_insert:
  "list_all P obj \<Longrightarrow> P (k, v) \<Longrightarrow> list_all P (insert_property k v obj)"
  by (induction obj) (auto split: option.splits)

lemma list_all_obj_set:
  "list_all P obj \<Longrightarrow> P (k, v) \<Longrightarrow> list_all P (obj_set obj k v)"
  by (simp add: obj_set_def list_all_replace list_all_insert)

lemma benignD:
  assumes "benign wr"
  obtains (same) "items (wr c) = items c"
  | (filed) k l n where "truthy l"
      "items (wr c) = obj_set (items c) k \<lparr>link = l, name = n, onChain = False\<rparr>"
  using assms unfolding benign_def by blast

lemma benign_mono:
  assumes "benign wr" "truthy (item_link (items c) k)"
  shows "truthy (item_link (items (wr c)) k)"
  using assms(1)
proof (cases rule: benignD[where c=c])
  case same
  with assms(2) show ?thesis by simp
next
  case (filed k' l n)
  with assms(2) show ?thesis by (simp add: item_link_set)
qed

lemma benign_keys:
  assumes "benign wr"
  shows "set (obj_keys (items c)) \<subseteq> set (obj_keys (items (wr c)))"
  using assms
proof (cases rule: benignD[where c=c])
  case same
  then show ?thesis by simp
next
  case (filed k' l n)
  then show ?thesis by (auto simp: set_obj_keys_set)
qed

lemma benign_all_linked:
  assumes "benign wr" "all_linked (items c)"
  shows "all_linked (items (wr c))"
  using assms(1)
proof (cases rule: benignD[where c=c])
  case same
  with assms(2) show ?thesis by simp
next
  case (filed k' l n)
  with assms(2) show ?thesis by (simp add: all_linked_def list_all_obj_set)
qed

lemma benign_cache_invariant:
  assumes "benign wr" "cache_invariant (items c)"
  shows "cache_invariant (items (wr c))"
  using assms(1)
proof (cases rule: benignD[where c=c])
  case same
  with assms(2) show ?thesis by simp
next
  case (filed k' l n)
  with assms(2) show ?thesis by (simp add: cache_invariant_def list_all_obj_set)
qed

lemma benign_distinct:
  assumes "benign wr" "distinct (obj_keys (items c))"
  shows "distinct (obj_keys (items (wr c)))"
  using assms(1)
proof (cases rule: benignD[where c=c])
  case same
  with assms(2) show ?thesis by simp
next
  case (filed k' l n)
  with assms(2) show ?thesis by (simp add: distinct_obj_set)
qed

lemma upload_link_flag:
  assumes "filter is_transfer ev = []"
    and "resolved (upload_link w p pk img index m wr ev) = Inr b"
  shows "b = list_all event_ok (filter is_transfer (item_events (upload_link w p pk img index m wr ev)))"
proof (cases rule: upload_link_cases[where p=p and w=w and img=img and m=m and pk=pk
      and index=index and wr=wr and ev=ev])
  case skip
  with assms show ?thesis by simp
next
  case threw
  with assms show ?thesis by (simp add: is_transfer_def)
next
  case (linked l)
  with assms show ?thesis by (simp add: is_transfer_def)
next
  case (falsy l)
  with assms show ?thesis by (simp add: is_transfer_def)
qed

lemma upload_link_resolved:
  "\<exists>b. resolved (upload_link w p pk img index m wr ev) = Inr b"
  by (cases rule: upload_link_cases[where p=p and w=w and img=img and m=m and pk=pk
      and index=index and wr=wr and ev=ev]) auto

lemma upload_link_links:
  assumes "known_storage (storage_of p)" "upload_file w (storage_of p) img m = Returned l" "truthy l"
  shows "truthy (item_link (items (writes (upload_link w p pk img index m wr ev) c)) index)"
proof (cases rule: upload_link_cases[where p=p and w=w and img=img and m=m and pk=pk
      and index=index and wr=wr and ev=ev])
  case skip
  with assms show ?thesis by simp
next
  case threw
  with assms show ?thesis by simp
next
  case (linked l')
  with assms show ?thesis by (simp add: set_item_def item_link_set)
next
  case (falsy l')
  with assms show ?thesis by simp
qed

lemma upload_one_item_flag:
  assumes "resolved (upload_one_item w p pk img i snap) = Inr b"
  shows "b = list_all event_ok (filter is_transfer (item_events (upload_one_item w p pk img i snap)))"
proof (cases rule: upload_one_item_cases[of w p pk img i snap])
  case idle
  with assms show ?thesis by simp
next
  case (unreadable f)
  with assms show ?thesis by simp
next
  case (init_failed m)
  with assms show ?thesis by simp
next
  case (init_only u cfg)
  with assms show ?thesis by (simp add: is_transfer_def)
next
  case (init_upload m u cfg)
  with assms show ?thesis by (simp add: upload_link_flag is_transfer_def)
next
  case (upload m)
  with assms show ?thesis by (simp add: upload_link_flag)
qed

lemma upload_one_item_fatal:
  assumes "resolved (upload_one_item w p pk img i snap) = Inl e"
  shows "is_fatal e"
proof (cases rule: upload_one_item_cases[of w p pk img i snap])
  case idle
  with assms show ?thesis by simp
next
  case (unreadable f)
  with assms show ?thesis by auto
next
  case (init_failed m)
  with assms show ?thesis by auto
next
  case (init_only u cfg)
  with assms show ?thesis by simp
next
  case (init_upload m u cfg)
  with assms upload_link_resolved[of w p pk img "image_index w img" m "set_program u cfg" "[CreateConfig True]"]
  show ?thesis by auto
next
  case (upload m)
  with assms upload_link_resolved[of w p pk img "image_index w img" m id "[]"]
  show ?thesis by auto
qed

lemma upload_one_item_returns:
  assumes "\<forall>a b. read_manifest w a b \<noteq> None" "\<forall>n mu r m. createConfig w n mu r m \<noteq> None"
  shows "\<exists>b. resolved (upload_one_item w p pk img i snap) = Inr b"
proof (cases rule: upload_one_item_cases[of w p pk img i snap])
  case idle
  then show ?thesis by auto
next
  case (unreadable f)
  with assms(1) show ?thesis by (metis option.distinct(1))
next
  case (init_failed m)
  with assms(2) show ?thesis by (metis option.distinct(1))
next
  case (init_only u cfg)
  then show ?thesis by auto
next
  case (init_upload m u cfg)
  then show ?thesis by (simp add: upload_link_resolved)
next
  case (upload m)
  then show ?thesis by (simp add: upload_link_resolved)
qed

lemma upload_one_item_links:
  assumes "known_storage (storage_of p)"
    and "read_manifest w (js_replace EXTENSION_PNG ''.json'' img) (path_basename w img) = Some m"
    and "upload_file w (storage_of p) img m = Returned l" and "truthy l"
    and "resolved (upload_one_item w p pk img i snap) = Inr b"
  shows "truthy (item_link (items snap) (image_index w img))
       \<or> (\<forall>c. truthy (item_link (items (writes (upload_one_item w p pk img i snap) c))
                  (image_index w img)))"
proof (cases rule: upload_one_item_cases[of w p pk img i snap])
  case idle
  then show ?thesis by simp
next
  case (unreadable f)
  with assms show ?thesis by simp
next
  case (init_failed m)
  with assms show ?thesis by simp
next
  case (init_only u cfg)
  then show ?thesis by simp
next
  case (init_upload m' u cfg)
  with assms(2) have "m' = m" by simp
  with init_upload assms show ?thesis by (simp add: upload_link_links)
next
  case (upload m')
  with assms(2) have "m' = m" by simp
  with upload assms show ?thesis by (simp add: upload_link_links)
qed

lemma cache_grows_refl [simp]: "cache_grows a a"
  by (simp add: cache_grows_def)

lemma cache_grows_trans: "cache_grows a b \<Longrightarrow> cache_grows b c \<Longrightarrow> cache_grows a c"
  unfolding cache_grows_def by blast

lemma benign_grows: "benign wr \<Longrightarrow> cache_grows (items c) (items (wr c))"
  by (simp add: cache_grows_def benign_mono benign_keys benign_all_linked benign_cache_invariant)

lemma foldl_writes_grows:
  "\<forall>eff\<in>set effs. benign (writes eff) \<Longrightarrow>
     cache_grows (items c) (items (foldl (\<lambda>c eff. writes eff c) c effs))"
proof (induction effs arbitrary: c)
  case Nil
  then show ?case by simp
next
  case (Cons eff effs)
  have "cache_grows (items c) (items (writes eff c))" using Cons.prems by (simp add: benign_grows)
  moreover have "cache_grows (items (writes eff c))
      (items (foldl (\<lambda>c eff. writes eff c) (writes eff c) effs))"
    using Cons.prems by (intro Cons.IH) simp
  ultimately show ?case using cache_grows_trans by simp
qed

lemma foldl_writes_sets_link:
  assumes "\<forall>eff\<in>set effs. benign (writes eff)" "eff \<in> set effs"
    and "\<forall>c. truthy (item_link (items (writes eff c)) k)"
  shows "truthy (item_link (items (foldl (\<lambda>c eff. writes eff c) c effs)) k)"
  using assms(1,2)
proof (induction effs arbitrary: c)
  case Nil
  then show ?case by simp
next
  case (Cons e effs)
  show ?case
  proof (cases "eff = e")
    case True
    have "truthy (item_link (items (writes e c)) k)" using assms(3) True by simp
    moreover have "cache_grows (items (writes e c))
        (items (foldl (\<lambda>c eff. writes eff c) (writes e c) effs))"
      using Cons.prems by (intro foldl_writes_grows) simp
    ultimately show ?thesis by (simp add: cache_grows_def)
  next
    case False
    with Cons show ?thesis by simp
  qed
qed

lemma promise_all_flag:
  "promise_all (map resolved effs) = Inr flags \<Longrightarrow>
   \<forall>eff\<in>set effs. \<forall>b. resolved eff = Inr b \<longrightarrow>
      b = list_all event_ok (filter is_transfer (item_events eff)) \<Longrightarrow>
     list_all (\<lambda>x. x) flags = list_all event_ok (filter is_transfer (concat (map item_events effs)))"
proof (induction effs arbitrary: flags)
  case Nil
  then show ?case by simp
next
  case (Cons eff effs)
  from Cons.prems(1) obtain b fl where b: "resolved eff = Inr b"
    and fl: "promise_all (map resolved effs) = Inr fl" and flags: "flags = b # fl"
    by (cases "resolved eff") (auto split: sum.splits)
  from Cons.IH[OF fl] Cons.prems(2)
  have "list_all (\<lambda>x. x) fl = list_all event_ok (filter is_transfer (concat (map item_events effs)))"
    by simp
  moreover from Cons.prems(2) b have "b = list_all event_ok (filter is_transfer (item_events eff))"
    by simp
  ultimately show ?case by (simp add: flags)
qed

lemma promise_all_fatal:
  "promise_all rs = Inl e \<Longrightarrow> Inl e \<in> set rs"
proof (induction rs)
  case Nil
  then show ?case by simp
next
  case (Cons r rs)
  then show ?case by (cases r) (auto split: sum.splits)
qed

lemma promise_all_returns:
  "\<forall>r\<in>set rs. \<exists>b. r = Inr b \<Longrightarrow> \<exists>xs. promise_all rs = Inr xs"
proof (induction rs)
  case Nil
  then show ?case by simp
next
  case (Cons r rs)
  then show ?case by (cases r) auto
qed

lemma BATCH_SIZE_known: "(BATCH_SIZE st = None) = (\<not> known_storage st)"
  by (cases st) (simp_all add: BATCH_SIZE_def known_storage_def)

section \<open>Properties of the entry point with count-bounded batches\<close>

lemma upload_windows_props:
  "(case upload_windows w p pk images cur st of
      Inl (e, c', tr') \<Rightarrow> is_fatal e \<and> cache_grows (items (fst st)) (items c')
    | Inr (c', ok', tr') \<Rightarrow>
        cache_grows (items (fst st)) (items c')
        \<and> (\<exists>new. tr' = snd (snd st) @ new
              \<and> ok' = (fst (snd st) \<and> list_all event_ok (filter is_transfer new)))
        \<and> (known_storage (storage_of p) \<longrightarrow>
             (\<forall>i m l. cur \<le> i \<and> i < length images
                \<and> read_manifest w (js_replace EXTENSION_PNG ''.json'' (images ! i))
                     (path_basename w (images ! i)) = Some m
                \<and> upload_file w (storage_of p) (images ! i) m = Returned l \<and> truthy l \<longrightarrow>
                truthy (item_link (items c') (image_index w (images ! i))))))"
proof (induction w p pk images cur st rule: upload_windows.induct)
  case (1 w p pk images cur st)
  obtain c ok tr where st: "st = (c, ok, tr)" by (cases st)
  show ?case
  proof (cases "cur < length images")
    case False
    then show ?thesis by (auto simp: st upload_windows.simps[of w p pk images cur])
  next
    case True
    show ?thesis
    proof (cases "BATCH_SIZE (storage_of p)")
      case None
      then have "\<not> known_storage (storage_of p)" by (simp add: BATCH_SIZE_known)
      with True None show ?thesis by (simp add: st upload_windows.simps[of w p pk images cur])
    next
      case (Some b)
      let ?hi = "min (cur + b) (length images)"
      let ?promises = "map (\<lambda>i. upload_one_item w p pk (images ! i) i c) [cur..<?hi]"
      let ?new = "concat (map item_events ?promises)"
      let ?tr = "tr @ ?new"
      have ben: "\<forall>eff\<in>set ?promises. benign (writes eff)"
        by (auto simp: benign_upload_one_item)
      show ?thesis
      proof (cases "promise_all (map resolved ?promises)")
        case (Inl e)
        from promise_all_fatal[OF Inl] obtain i where "resolved (upload_one_item w p pk (images ! i) i c) = Inl e"
          by auto
        then have "is_fatal e" by (rule upload_one_item_fatal)
        with True Some Inl show ?thesis
          by (simp add: st upload_windows.simps[of w p pk images cur] Let_def)
      next
        case (Inr flags)
        let ?c = "foldl (\<lambda>c eff. writes eff c) c ?promises"
        let ?st = "(?c, list_all (\<lambda>x. x) flags \<and> ok, ?tr)"
        have g1: "cache_grows (items c) (items ?c)" using ben by (rule foldl_writes_grows)
        have fl: "list_all (\<lambda>x. x) flags = list_all event_ok (filter is_transfer ?new)"
          using Inr by (rule promise_all_flag) (auto dest: upload_one_item_flag)
        have un: "upload_windows w p pk images cur st = upload_windows w p pk images (cur + b) ?st"
          using True Some Inr by (simp add: st upload_windows.simps[of w p pk images cur] Let_def)
        note IH = "1.IH"[OF st[symmetric] refl True Some refl refl Inr]
        show ?thesis
        proof (cases "upload_windows w p pk images (cur + b) ?st")
          case (Inl x)
          obtain e c' tr' where x: "x = (e, c', tr')" by (cases x)
          from IH Inl x have "is_fatal e" "cache_grows (items ?c) (items c')" by simp_all
          with g1 cache_grows_trans have "is_fatal e \<and> cache_grows (items c) (items c')" by blast
          with Inl x show ?thesis unfolding un by (simp add: st)
        next
          case (Inr x)
          obtain c' ok' tr' where x: "x = (c', ok', tr')" by (cases x)
          from IH Inr x have g2: "cache_grows (items ?c) (items c')"
            and t: "\<exists>new. tr' = ?tr @ new
                \<and> ok' = ((list_all (\<lambda>x. x) flags \<and> ok) \<and> list_all event_ok (filter is_transfer new))"
            and l: "known_storage (storage_of p) \<longrightarrow>
             (\<forall>i m l. cur + b \<le> i \<and> i < length images
                \<and> read_manifest w (js_replace EXTENSION_PNG ''.json'' (images ! i))
                     (path_basename w (images ! i)) = Some m
                \<and> upload_file w (storage_of p) (images ! i) m = Returned l \<and> truthy l \<longrightarrow>
                truthy (item_link (items c') (image_index w (images ! i))))"
            by simp_all
          have g: "cache_grows (items c) (items c')" using g1 g2 by (rule cache_grows_trans)
          from t obtain new where new: "tr' = ?tr @ new"
            "ok' = ((list_all (\<lambda>x. x) flags \<and> ok) \<and> list_all event_ok (filter is_transfer new))"
            by blast
          have t': "\<exists>new. tr' = tr @ new \<and> ok' = (ok \<and> list_all event_ok (filter is_transfer new))"
          proof (intro exI conjI)
            show "tr' = tr @ (?new @ new)" using new(1) by simp
            show "ok' = (ok \<and> list_all event_ok (filter is_transfer (?new @ new)))"
              using new(2) fl by auto
          qed
          have l': "truthy (item_link (items c') (image_index w (images ! i)))"
            if ks: "known_storage (storage_of p)" and i: "cur \<le> i" "i < length images"
              and m: "read_manifest w (js_replace EXTENSION_PNG ''.json'' (images ! i))
                     (path_basename w (images ! i)) = Some m"
              and u: "upload_file w (storage_of p) (images ! i) m = Returned l" "truthy l"
            for i m l
          proof (cases "cur + b \<le> i")
            case True
            with l ks i m u show ?thesis by blast
          next
            case False
            let ?eff = "upload_one_item w p pk (images ! i) i c"
            from False i have mem: "?eff \<in> set ?promises" by auto
            from promise_all_Inr[OF \<open>promise_all (map resolved ?promises) = Inr flags\<close>] mem
            obtain bb where bb: "resolved ?eff = Inr bb" by (metis (no_types, lifting) image_iff list.set_map)
            from upload_one_item_links[OF ks m u bb]
            have "truthy (item_link (items ?c) (image_index w (images ! i)))"
            proof
              assume "truthy (item_link (items c) (image_index w (images ! i)))"
              with g1 show ?thesis by (simp add: cache_grows_def)
            next
              assume "\<forall>c'. truthy (item_link (items (writes ?eff c')) (image_index w (images ! i)))"
              with ben mem show ?thesis by (intro foldl_writes_sets_link) auto
            qed
            with g2 show ?thesis by (simp add: cache_grows_def)
          qed
          from g t' l' Inr x show ?thesis unfolding un by (simp add: st) blast
        qed
      qed
    qed
  qed
qed

lemma upload_windows_returns:
  assumes rm: "\<forall>a b. read_manifest w a b \<noteq> None"
    and cc: "\<forall>n mu r m. createConfig w n mu r m \<noteq> None"
  shows "\<exists>r. upload_windows w p pk images cur st = Inr r"
  using assms
proof (induction w p pk images cur st rule: upload_windows.induct)
  case (1 w p pk images cur st)
  obtain c ok tr where st: "st = (c, ok, tr)" by (cases st)
  show ?case
  proof (cases "cur < length images")
    case False
    then show ?thesis by (simp add: st upload_windows.simps[of w p pk images cur])
  next
    case True
    show ?thesis
    proof (cases "BATCH_SIZE (storage_of p)")
      case None
      with True show ?thesis by (simp add: st upload_windows.simps[of w p pk images cur])
    next
      case (Some b)
      let ?promises = "map (\<lambda>i. upload_one_item w p pk (images ! i) i c)
                         [cur..<min (cur + b) (length images)]"
      have "\<forall>r\<in>set (map resolved ?promises). \<exists>b. r = Inr b"
        using upload_one_item_returns[OF "1.prems"] by simp
      from promise_all_returns[OF this] obtain flags where
        fl: "promise_all (map resolved ?promises) = Inr flags" by blast
      from "1.IH"[OF st[symmetric] refl True Some refl refl fl "1.prems"] True Some fl
      show ?thesis by (simp add: st upload_windows.simps[of w p pk images cur] Let_def)
    qed
  qed
qed

lemma obj_get_in_set: "obj_get obj k = Some v \<Longrightarrow> (k, v) \<in> set obj"
  by (simp add: obj_get_def map_of_SomeD)

lemma item_link_mark_keys: "item_link (mark_keys its g) k = item_link its k"
proof (induction g arbitrary: its)
  case Nil
  then show ?case by simp
next
  case (Cons a g)
  have "item_link (obj_set its a (case obj_get its a of
                 None \<Rightarrow> \<lparr>link = None, name = None, onChain = True\<rparr>
               | Some e \<Rightarrow> e\<lparr>onChain := True\<rparr>)) k = item_link its k"
    by (cases "obj_get its a") (simp_all add: item_link_def obj_get_set)
  with Cons.IH show ?case by (simp add: mark_keys_Cons)
qed

lemma all_linked_mark_keys:
  "all_linked its \<Longrightarrow> set g \<subseteq> set (obj_keys its) \<Longrightarrow> all_linked (mark_keys its g)"
proof (induction g arbitrary: its)
  case Nil
  then show ?case by simp
next
  case (Cons a g)
  then obtain e where e: "obj_get its a = Some e" using obj_key_get by fastforce
  from obj_get_in_set[OF e] Cons.prems(1) have "truthy (link e)"
    by (auto simp: all_linked_def list_all_iff)
  then have al: "all_linked (obj_set its a (e\<lparr>onChain := True\<rparr>))"
    using Cons.prems(1) by (simp add: all_linked_def list_all_obj_set)
  have "set g \<subseteq> set (obj_keys (obj_set its a (e\<lparr>onChain := True\<rparr>)))"
    using Cons.prems(2) by (auto simp: set_obj_keys_set)
  from Cons.IH[OF al this] e show ?case by (simp add: mark_keys_Cons)
qed


lemma foldl_write_keys_props:
  "set (concat gs) \<subseteq> set (obj_keys its) \<Longrightarrow>
   foldl (write_keys rpc) (its, calls, ok) gs = (its', calls', ok') \<Longrightarrow>
     obj_keys its' = obj_keys its
     \<and> (\<forall>k. item_link its' k = item_link its k)
     \<and> (all_linked its \<longrightarrow> all_linked its')
     \<and> (\<exists>new. calls' = calls @ new \<and> ok' = (ok \<and> list_all (\<lambda>(ind, lines). rpc ind lines) new))"
proof (induction gs arbitrary: its calls ok)
  case Nil
  then show ?case by simp
next
  case (Cons g gs)
  obtain its1 calls1 ok1 where st1: "write_keys rpc (its, calls, ok) g = (its1, calls1, ok1)"
    by (cases "write_keys rpc (its, calls, ok) g")
  have sub: "set g \<subseteq> set (obj_keys its)" using Cons.prems(1) by simp
  have k1: "obj_keys its1 = obj_keys its" by (rule write_keys_obj_keys[OF sub st1])
  have l1: "item_link its1 k = item_link its k" for k
    using st1 by (auto simp: write_keys_def item_link_mark_keys split: if_splits)
  have a1: "all_linked its \<longrightarrow> all_linked its1"
    using st1 sub by (auto simp: write_keys_def all_linked_mark_keys split: if_splits)
  have c1: "\<exists>new. calls1 = calls @ new \<and> ok1 = (ok \<and> list_all (\<lambda>(ind, lines). rpc ind lines) new)"
    using st1 by (auto simp: write_keys_def split: if_splits prod.splits)
  have "set (concat gs) \<subseteq> set (obj_keys its1)" using Cons.prems(1) k1 by simp
  moreover have "foldl (write_keys rpc) (its1, calls1, ok1) gs = (its', calls', ok')"
    using Cons.prems(2) st1 by simp
  ultimately have IH: "obj_keys its' = obj_keys its1
     \<and> (\<forall>k. item_link its' k = item_link its1 k)
     \<and> (all_linked its1 \<longrightarrow> all_linked its')
     \<and> (\<exists>new. calls' = calls1 @ new \<and> ok' = (ok1 \<and> list_all (\<lambda>(ind, lines). rpc ind lines) new))"
    by (rule Cons.IH)
  from c1 obtain n1 where n1: "calls1 = calls @ n1" "ok1 = (ok \<and> list_all (\<lambda>(ind, lines). rpc ind lines) n1)"
    by blast
  from IH obtain n2 where n2: "calls' = calls1 @ n2" "ok' = (ok1 \<and> list_all (\<lambda>(ind, lines). rpc ind lines) n2)"
    by blast
  have "calls' = calls @ (n1 @ n2) \<and> ok' = (ok \<and> list_all (\<lambda>(ind, lines). rpc ind lines) (n1 @ n2))"
    using n1 n2 by auto
  then have "\<exists>new. calls' = calls @ new \<and> ok' = (ok \<and> list_all (\<lambda>(ind, lines). rpc ind lines) new)"
    by blast
  with IH k1 l1 a1 show ?case by simp
qed

lemma commit_items_props:
  assumes "commit_items rpc its ok = (its', calls', ok')"
  shows "obj_keys its' = obj_keys its"
    and "item_link its' k = item_link its k"
    and "all_linked its \<Longrightarrow> all_linked its'"
    and "ok' = (ok \<and> list_all (\<lambda>(ind, lines). rpc ind lines) calls')"
proof -
  have "set (concat (chunks (obj_keys its) 10)) \<subseteq> set (obj_keys its)"
    by (simp add: concat_chunks)
  from foldl_write_keys_props[OF this, of rpc "[]" ok its' calls' ok'] assms
  have r: "obj_keys its' = obj_keys its
     \<and> (\<forall>k. item_link its' k = item_link its k)
     \<and> (all_linked its \<longrightarrow> all_linked its')
     \<and> (\<exists>new. calls' = [] @ new \<and> ok' = (ok \<and> list_all (\<lambda>(ind, lines). rpc ind lines) new))"
    by (simp add: commit_items_keys)
  from r show "obj_keys its' = obj_keys its" by simp
  from r show "item_link its' k = item_link its k" by simp
  from r show "all_linked its \<Longrightarrow> all_linked its'" by simp
  from r show "ok' = (ok \<and> list_all (\<lambda>(ind, lines). rpc ind lines) calls')" by auto
qed

lemma upload_cases:
  obtains
    (wallet) "load_wallet w = None" "outcome (upload w p files saved) = Inl WalletFailed"
      "final_cache (upload w p files saved) = init_cache saved" "trace (upload w p files saved) = []"
  | (rejected) pk e c tr where "load_wallet w = Some pk"
      "upload_windows w p pk (images_of w files (existing_keys saved)) 0 (init_cache saved, True, [])
         = Inl (e, c, tr)"
      "outcome (upload w p files saved) = Inl e"
      "final_cache (upload w p files saved) = c" "trace (upload w p files saved) = tr"
  | (completed) pk c ok tr its calls ok' where "load_wallet w = Some pk"
      "upload_windows w p pk (images_of w files (existing_keys saved)) 0 (init_cache saved, True, [])
         = Inr (c, ok, tr)"
      "commit_items (addConfigLines w) (items c) ok = (its, calls, ok')"
      "outcome (upload w p files saved) = Inr ok'"
      "final_cache (upload w p files saved) = c\<lparr>items := its\<rparr>"
      "trace (upload w p files saved)
         = tr @ map (\<lambda>(ind, lines). AddConfigLines ind lines (addConfigLines w ind lines)) calls"
proof (cases "load_wallet w")
  case None
  then show ?thesis using wallet by (simp add: upload_def Let_def)
next
  case (Some pk)
  show ?thesis
  proof (cases "upload_windows w p pk (images_of w files (existing_keys saved)) 0 (init_cache saved, True, [])")
    case (Inl x)
    obtain e c tr where x: "x = (e, c, tr)" by (cases x)
    with Some Inl show ?thesis using rejected[of pk e c tr] by (simp add: upload_def Let_def)
  next
    case (Inr x)
    obtain c ok tr where x: "x = (c, ok, tr)" by (cases x)
    obtain its calls ok' where ci: "commit_items (addConfigLines w) (items c) ok = (its, calls, ok')"
      by (cases "commit_items (addConfigLines w) (items c) ok")
    with Some Inr x show ?thesis using completed[of pk c ok tr its calls ok']
      by (simp add: upload_def Let_def)
  qed
qed

lemma registry_events:
  "list_all event_ok (filter is_transfer
      (map (\<lambda>(ind, lines). AddConfigLines ind lines (rpc ind lines)) calls))
     = list_all (\<lambda>(ind, lines). rpc ind lines) calls"
  by (induction calls) (auto simp: is_transfer_def)

lemma upload_flag:
  assumes "outcome (upload w p files saved) = Inr flag"
  shows "flag = list_all event_ok (filter is_transfer (trace (upload w p files saved)))"
proof (cases rule: upload_cases[of w p files saved])
  case wallet
  with assms show ?thesis by simp
next
  case (rejected pk e c tr)
  with assms show ?thesis by simp
next
  case (completed pk c ok tr its calls ok')
  from upload_windows_props[where w=w and p=p and pk=pk and images="images_of w files (existing_keys saved)"
      and cur=0 and st="(init_cache saved, True, [])"]
    completed(2)
  have ok: "ok = list_all event_ok (filter is_transfer tr)" by auto
  from commit_items_props(4)[OF completed(3)]
  have "ok' = (ok \<and> list_all (\<lambda>(ind, lines). addConfigLines w ind lines) calls)" .
  with ok completed(4,6) assms show ?thesis by (simp add: registry_events)
qed

lemma upload_fatal:
  assumes "outcome (upload w p files saved) = Inl e"
  shows "is_fatal e"
proof (cases rule: upload_cases[of w p files saved])
  case wallet
  with assms show ?thesis by simp
next
  case (rejected pk e' c tr)
  from upload_windows_props[where w=w and p=p and pk=pk and images="images_of w files (existing_keys saved)"
      and cur=0 and st="(init_cache saved, True, [])"]
    rejected(2)
  have "is_fatal e'" by simp
  with rejected assms show ?thesis by simp
next
  case (completed pk c ok tr its calls ok')
  with assms show ?thesis by simp
qed

lemma upload_returns:
  assumes "load_wallet w \<noteq> None" "\<forall>a b. read_manifest w a b \<noteq> None"
    "\<forall>n mu r m. createConfig w n mu r m \<noteq> None"
  shows "\<exists>flag. outcome (upload w p files saved) = Inr flag"
proof (cases rule: upload_cases[of w p files saved])
  case wallet
  with assms show ?thesis by simp
next
  case (rejected pk e c tr)
  with upload_windows_returns[OF assms(2,3), of p pk "images_of w files (existing_keys saved)" 0
      "(init_cache saved, True, [])"]
  show ?thesis by simp
next
  case (completed pk c ok tr its calls ok')
  then show ?thesis by simp
qed







text \<open>
  Claim C5, for the entry point of commands/upload.ts. When the run returns, the flag it
  returns is \<open>True\<close> exactly when every upload and every registry write among its events
  succeeded. A run ends in an exception only when the wallet cannot be loaded, a manifest
  cannot be read or the registry initialisation fails: no failed upload and no failed
  registry write makes it raise. The entry point of part\_000 is different: it returns
  nothing, and an upload that fails there ends the run in an exception.
\<close>

theorem upload_success_flag:
  "(\<forall>flag. outcome (upload w p files saved) = Inr flag \<longrightarrow>
       flag = list_all event_ok (filter is_transfer (trace (upload w p files saved))))
   \<and> (\<forall>e. outcome (upload w p files saved) = Inl e \<longrightarrow> is_fatal e)
   \<and> (load_wallet w \<noteq> None \<and> (\<forall>a b. read_manifest w a b \<noteq> None)
        \<and> (\<forall>n mu r m. createConfig w n mu r m \<noteq> None) \<longrightarrow>
        (\<exists>flag. outcome (upload w p files saved) = Inr flag))"
  using upload_flag[of w p files saved] upload_fatal[of w p files saved]
    upload_returns[of w p files saved]
  by blast

lemma chunks_single: "xs \<noteq> [] \<Longrightarrow> length xs \<le> n \<Longrightarrow> chunks xs n = [xs]"
proof -
  assume a: "xs \<noteq> []" "length xs \<le> n"
  then have "0 < n" by (cases xs) auto
  from chunks_step[OF this a(1)] a(2) show ?thesis by simp
qed

lemma images1: "images_of world_registry_down [''assets/0.png''] (existing_keys None) = [''assets/0.png'']"
  by (simp add: images_of_def existing_keys_def scan_file_def scan_cached_def
        seen_truthy_def Object_prototype_keys_def EXTENSION_PNG_def split_slash_pop_def
        world_ex_def world_registry_down_def extname_ex_def Let_def)

lemma windows1:
  "upload_windows world_registry_down (params_ex Ipfs) ''wallet'' [''assets/0.png''] 0
     (init_cache None, True, [])
   = Inr (\<lparr>program = \<lparr>uuid = Some ''uuid'', config = Some ''config''\<rparr>,
           items = [(''0'', \<lparr>link = Some ''https://arweave.net/assets/0.png'',
                             name = Some ''assets/0.json'', onChain = False\<rparr>)],
           authority = Some ''wallet''\<rparr>, True,
          [CreateConfig True, Upload ''assets/0.png'' True])"
  by (simp add: upload_windows.simps BATCH_SIZE_def params_ex_def upt_rec
      upload_one_item_def upload_link_def Let_def world_ex_def world_registry_down_def
      init_cache_def empty_program_def item_link_def truthy_def EXTENSION_PNG_def
      split_slash_pop_def set_item_def set_program_def obj_set_def manifest_ex_def)

lemma commit1:
  "commit_items (\<lambda>ind lines. False)
      [(''0'', \<lparr>link = Some ''https://arweave.net/assets/0.png'',
                 name = Some ''assets/0.json'', onChain = False\<rparr>)] True
   = ([(''0'', \<lparr>link = Some ''https://arweave.net/assets/0.png'',
                 name = Some ''assets/0.json'', onChain = False\<rparr>)],
      [(''0'', [(Some ''https://arweave.net/assets/0.png'', Some ''assets/0.json'')])], False)"
  by (simp add: commit_items_keys chunks_single write_keys_def group_onChain_def group_call_def
      item_onChain_def item_name_def item_link_def)

lemma run_registry_down:
  "upload world_registry_down (params_ex Ipfs) [''assets/0.png''] None
     = \<lparr>outcome = Inr False,
        final_cache = \<lparr>program = \<lparr>uuid = Some ''uuid'', config = Some ''config''\<rparr>,
                       items = [(''0'', \<lparr>link = Some ''https://arweave.net/assets/0.png'',
                                         name = Some ''assets/0.json'', onChain = False\<rparr>)],
                       authority = Some ''wallet''\<rparr>,
        trace = [CreateConfig True, Upload ''assets/0.png'' True,
                 AddConfigLines ''0'' [(Some ''https://arweave.net/assets/0.png'', Some ''assets/0.json'')] False]\<rparr>"
proof -
  have lw: "load_wallet world_registry_down = Some ''wallet''"
    and ac: "addConfigLines world_registry_down = (\<lambda>ind lines. False)"
    by (simp_all add: world_registry_down_def world_ex_def)
  show ?thesis
    by (simp add: upload_def Let_def images1 lw windows1 ac commit1)
qed

theorem upload_success_flag_witness:
  "outcome (upload world_registry_down (params_ex Ipfs) [''assets/0.png''] None) = Inr False
   \<and> list_all event_ok (filter is_transfer
         (trace (upload world_registry_down (params_ex Ipfs) [''assets/0.png''] None))) = False"
proof -
  let ?R = "upload world_registry_down (params_ex Ipfs) [''assets/0.png''] None"
  note T = upload_success_flag [of world_registry_down "params_ex Ipfs" "[''assets/0.png'']" None]
  have tot: "load_wallet world_registry_down \<noteq> None
        \<and> (\<forall>a b. read_manifest world_registry_down a b \<noteq> None)
        \<and> (\<forall>n mu r m. createConfig world_registry_down n mu r m \<noteq> None)"
    by (simp add: world_registry_down_def world_ex_def)
  with T obtain flag where out: "outcome ?R = Inr flag" by blast
  with T have fl: "flag = list_all event_ok (filter is_transfer (trace ?R))" by blast
  have "list_all event_ok (filter is_transfer (trace ?R)) = False"
    by (simp add: run_registry_down is_transfer_def)
  with out fl show ?thesis by simp
qed

lemma pending1:
  "getItemsNeedingUpload (file_stem (world_ex\<lparr>upload_file := uf, addConfigLines := rpc\<rparr>))
     (items (init_cache None)) [''assets/0.png''] = [''0'']"
  by (simp add: getItemsNeedingUpload_def file_stem_def world_ex_def init_cache_def new_Set_def
      set_add_def item_link_def truthy_def basename_ext_ex_def extname_ex_def split_slash_pop_def
      Let_def)

text \<open>
  The entry point of part\_000 on one new file: with the ipfs backend and an upload that
  fails, the run ends in the exception of the upload.
\<close>

theorem upload_bundle_raises_counterexample:
  "outcome (upload_bundle world_uploads_down (params_ex Ipfs) [''assets/0.png''] None)
     = Inl (UploadFailed ''0'')
   \<and> trace (upload_bundle world_uploads_down (params_ex Ipfs) [''assets/0.png''] None)
     = [Upload ''0'' False]"
proof -
  have p: "getItemsNeedingUpload (file_stem world_uploads_down) (items (init_cache None))
      [''assets/0.png''] = [''0'']"
    using pending1[where uf="\<lambda>st file m. Threw" and rpc="addConfigLines world_ex"]
    by (simp add: world_uploads_down_def)
  have f: "read_item_manifest world_uploads_down ''0'' = Some (manifest_ex ''0'')"
    "upload_file world_uploads_down Ipfs ''0'' (manifest_ex ''0'') = Threw"
    "storage_of (params_ex Ipfs) = Ipfs"
    by (simp_all add: world_uploads_down_def world_ex_def params_ex_def)
  show ?thesis
    by (simp add: upload_bundle_def Let_def p upload_phase_def f)
qed

section \<open>Where the two entry points differ\<close>




section \<open>The cache invariant through a run\<close>
























end
